theory Spec2Isabelle
  imports Main "HOL-Library.Sublist"
begin

section \<open>Strings\<close>

text \<open>
  JavaScript strings are modelled as \<^typ>\<open>string\<close>: lists of code units below 256.
  The white space that \<open>trim\<close>, \<open>trimRight\<close> strip in that range is TAB, LF, VT, FF, CR,
  SPACE and NBSP.
\<close>

definition is_space :: "char \<Rightarrow> bool" where
  "is_space c \<longleftrightarrow> (of_char c :: nat) \<in> {9, 10, 11, 12, 13, 32, 160}"

definition trimLeft :: "string \<Rightarrow> string" where
  "trimLeft s = dropWhile is_space s"

definition trimRight :: "string \<Rightarrow> string" where
  "trimRight s = rev (dropWhile is_space (rev s))"

definition trim :: "string \<Rightarrow> string" where
  "trim s = trimRight (trimLeft s)"

definition is_digit :: "char \<Rightarrow> bool" where
  "is_digit c \<longleftrightarrow> 48 \<le> (of_char c :: nat) \<and> (of_char c :: nat) \<le> 57"

text \<open>\<open>a <= b\<close> on JavaScript strings: lexicographic on code units.\<close>

fun str_le :: "string \<Rightarrow> string \<Rightarrow> bool" where
  "str_le [] _ = True"
| "str_le (_ # _) [] = False"
| "str_le (a # as) (b # bs) =
     (if (of_char a :: nat) < of_char b then True
      else if (of_char b :: nat) < of_char a then False
      else str_le as bs)"

text \<open>\<open>parseInt(number, 10)\<close> on a string of decimal digits. The value here is exact; the
  source's is a double, which is the same number below \<open>2^53\<close>.\<close>

definition parseInt :: "string \<Rightarrow> nat" where
  "parseInt ds = foldl (\<lambda>n c. 10 * n + ((of_char c :: nat) - 48)) 0 ds"

text \<open>The decimal rendering of a number in a template literal.\<close>

definition digit_char :: "nat \<Rightarrow> char" where
  "digit_char d = char_of (48 + d)"

fun show_nat_aux :: "nat \<Rightarrow> nat \<Rightarrow> string \<Rightarrow> string" where
  "show_nat_aux 0 n acc = acc"
| "show_nat_aux (Suc fuel) n acc =
     (if n < 10 then digit_char n # acc
      else show_nat_aux fuel (n div 10) (digit_char (n mod 10) # acc))"

definition show_nat :: "nat \<Rightarrow> string" where
  "show_nat n = show_nat_aux (Suc n) n []"

text \<open>\<open>xs.indexOf(x)\<close>: the first position of \<open>x\<close>, \<open>None\<close> for \<open>-1\<close>.\<close>

fun indexOf :: "'a list \<Rightarrow> 'a \<Rightarrow> nat option" where
  "indexOf [] x = None"
| "indexOf (y # ys) x = (if y = x then Some 0 else map_option Suc (indexOf ys x))"

section \<open>Citation rewriter of the terminal front-end\<close>

definition ESC :: char where
  "ESC = char_of (27 :: nat)"

definition GRAY :: string where
  "GRAY = ESC # ''[90m''"

definition NORMAL :: string where
  "NORMAL = ESC # ''[0m''"

record display =
  buffer :: string
  refs :: "nat list"

definition MAX_LOOKAHEAD :: nat where
  "MAX_LOOKAHEAD = 3 * length ''[citation:x]''"

text \<open>
  The regular expression \<open>/\[citation:(\d+)\]/g\<close>. \<open>PATTERN_at s\<close> matches at the head of
  \<open>s\<close> and returns the captured digits; the greedy \<open>\d+\<close> takes every digit, and giving
  one back cannot help since the next character would then be a digit, not \<open>]\<close>.
  \<open>PATTERN_exec s lastIndex\<close> is \<open>PATTERN.exec(s)\<close> of a global pattern: the first match at
  or after \<open>lastIndex\<close>, as (index, captured digits).
\<close>

definition PATTERN_at :: "string \<Rightarrow> string option" where
  "PATTERN_at s =
     (if take 10 s = ''[citation:'' then
        (let ds = takeWhile is_digit (drop 10 s);
             r = drop (10 + length ds) s
         in if ds \<noteq> [] \<and> take 1 r = '']'' then Some ds else None)
      else None)"

fun PATTERN_search :: "string \<Rightarrow> (nat \<times> string) option" where
  "PATTERN_search [] = None"
| "PATTERN_search (c # cs) =
     (case PATTERN_at (c # cs) of
        Some ds \<Rightarrow> Some (0, ds)
      | None \<Rightarrow> map_option (\<lambda>(i, ds). (Suc i, ds)) (PATTERN_search cs))"

definition PATTERN_exec :: "string \<Rightarrow> nat \<Rightarrow> (nat \<times> string) option" where
  "PATTERN_exec s lastIndex =
     (if lastIndex > length s then None
      else map_option (\<lambda>(i, ds). (lastIndex + i, ds)) (PATTERN_search (drop lastIndex s)))"

text \<open>
  One rewrite of \<open>push\<close> (lines 707 to 715): the guard compares the captured text with
  \<open>'0'\<close> and \<open>'9'\<close> as strings, and the replacement always removes 12 characters.
\<close>

definition rewrite_refs :: "nat list \<Rightarrow> nat \<Rightarrow> nat list" where
  "rewrite_refs rs num = (if indexOf rs num = None then rs @ [num] else rs)"

definition citation_of :: "nat list \<Rightarrow> nat \<Rightarrow> nat" where
  "citation_of rs num = 1 + (case indexOf rs num of Some i \<Rightarrow> i | None \<Rightarrow> 0)"

definition push_ref :: "nat list \<Rightarrow> nat \<Rightarrow> string" where
  "push_ref rs num = GRAY @ ''['' @ show_nat (citation_of rs num) @ '']'' @ NORMAL"

definition push_guard :: "string \<Rightarrow> bool" where
  "push_guard number \<longleftrightarrow> str_le ''0'' number \<and> str_le number ''9''"

partial_function (option) push_loop :: "string \<Rightarrow> nat list \<Rightarrow> nat \<Rightarrow> (string \<times> nat list) option" where
  "push_loop buf rs lastIndex =
     (case PATTERN_exec buf lastIndex of
        None \<Rightarrow> Some (buf, rs)
      | Some (index, number) \<Rightarrow>
          if push_guard number then
            push_loop
              (take index buf @ push_ref (rewrite_refs rs (parseInt number)) (parseInt number)
                 @ drop (index + 12) buf)
              (rewrite_refs rs (parseInt number))
              (index + 11 + length number)
          else push_loop buf rs (index + 11 + length number))"

declare push_loop.simps [code]

text \<open>
  \<open>push\<close> returns the new display and what it wrote to standard output; \<open>None\<close> stands for
  a rewriting loop that does not return.
\<close>

definition push :: "display \<Rightarrow> string \<Rightarrow> (display \<times> string) option" where
  "push d text =
     (case push_loop (buffer d @ text) (refs d) 0 of
        None \<Rightarrow> None
      | Some (buf, rs) \<Rightarrow>
          if length buf > MAX_LOOKAHEAD then
            Some (\<lparr>buffer = drop (length buf - MAX_LOOKAHEAD) buf, refs = rs\<rparr>,
                  take (length buf - MAX_LOOKAHEAD) buf)
          else Some (\<lparr>buffer = buf, refs = rs\<rparr>, []))"

definition flush :: "display \<Rightarrow> display \<times> string" where
  "flush d = (\<lparr>buffer = [], refs = []\<rparr>, trimRight (buffer d))"

text \<open>One whole answer: a single \<open>push\<close> on a fresh display, then \<open>flush\<close>; the result is
  everything written to standard output.\<close>

definition push_then_flush :: "string \<Rightarrow> string option" where
  "push_then_flush text =
     (case push \<lparr>buffer = [], refs = []\<rparr> text of
        None \<Rightarrow> None
      | Some (d, out) \<Rightarrow> Some (out @ snd (flush d)))"

section \<open>Citation formatter of the Telegram front-end\<close>

text \<open>
  What a function of the program can raise: the TypeError and SyntaxError of JavaScript,
  the error \<open>chat\<close> raises for a response that is not \<open>ok\<close> (line 82) and the one \<open>search\<close>
  raises after its last attempt (line 349), each with the status, and the rejection of a
  \<open>fetch\<close>. \<open>Unmodelled\<close> marks the few places where the source goes on by coercing a value
  that is no string into a string and the model does not follow it.
\<close>

datatype error =
  TypeError
  | SyntaxError
  | HTTPError nat
  | SearchFailed nat
  | NetworkError
  | Unmodelled

text \<open>A reference built by \<open>search\<close>; \<open>title\<close> and \<open>url\<close> are \<open>undefined\<close> (\<open>None\<close>) when the
  hit has none. \<open>show_opt\<close> is the text of such a value in a template literal.\<close>

record reference =
  position :: nat
  title :: "string option"
  url :: "string option"
  snippet :: string

definition show_opt :: "string option \<Rightarrow> string" where
  "show_opt v = (case v of None \<Rightarrow> ''undefined'' | Some x \<Rightarrow> x)"

text \<open>\<open>s.indexOf(sub)\<close> and \<open>s.lastIndexOf(sub)\<close> on strings, \<open>None\<close> for \<open>-1\<close>.\<close>

fun str_indexOf :: "string \<Rightarrow> string \<Rightarrow> nat option" where
  "str_indexOf [] sub = (if sub = [] then Some 0 else None)"
| "str_indexOf (c # cs) sub =
     (if take (length sub) (c # cs) = sub then Some 0
      else map_option Suc (str_indexOf cs sub))"

fun lastIndexOf :: "string \<Rightarrow> string \<Rightarrow> nat option" where
  "lastIndexOf [] sub = (if sub = [] then Some 0 else None)"
| "lastIndexOf (c # cs) sub =
     (case lastIndexOf cs sub of
        Some i \<Rightarrow> Some (Suc i)
      | None \<Rightarrow> if take (length sub) (c # cs) = sub then Some 0 else None)"

text \<open>
  The \<open>while (true)\<close> loop of \<open>format\<close>. \<open>buffer[index + 10]\<close> past the end is
  \<open>undefined\<close>, for which the guard is false, as it is for a character that is no digit:
  the buffer is then unchanged and the loop runs again on the same buffer.
\<close>

definition format_guard :: "string \<Rightarrow> nat \<Rightarrow> bool" where
  "format_guard buf i \<longleftrightarrow>
     i < length buf \<and> str_le ''0'' [buf ! i] \<and> str_le [buf ! i] ''9''"

definition format_ref :: "nat list \<Rightarrow> nat \<Rightarrow> string" where
  "format_ref rs num = ''['' @ show_nat (citation_of rs num) @ '']''"

partial_function (option) format_loop :: "string \<Rightarrow> nat list \<Rightarrow> (string \<times> nat list) option" where
  "format_loop buf rs =
     (case str_indexOf buf ''[citation:'' of
        None \<Rightarrow> Some (buf, rs)
      | Some index \<Rightarrow>
          if format_guard buf (index + 10) then
            format_loop
              (take index buf
                 @ format_ref (rewrite_refs rs (parseInt [buf ! (index + 10)]))
                     (parseInt [buf ! (index + 10)])
                 @ drop (index + 12) buf)
              (rewrite_refs rs (parseInt [buf ! (index + 10)]))
          else format_loop buf rs)"

declare format_loop.simps [code]

text \<open>The list of references appended by \<open>format\<close>; \<open>references[ref - 1]\<close> out of range is
  \<open>undefined\<close>, whose destructuring raises.\<close>

fun format_urls :: "reference list \<Rightarrow> nat \<Rightarrow> nat list \<Rightarrow> error + string" where
  "format_urls references i [] = Inr []"
| "format_urls references i (r # rs) =
     (if r = 0 \<or> r > length references then Inl TypeError
      else (case format_urls references (Suc i) rs of
              Inl e \<Rightarrow> Inl e
            | Inr rest \<Rightarrow>
                Inr (''['' @ show_nat (i + 1) @ ''] '' @ show_opt (url (references ! (r - 1)))
                       @ [CHR 0x0A] @ rest)))"

definition format :: "string \<Rightarrow> reference list option \<Rightarrow> (error + string) option" where
  "format answer references =
     (case format_loop answer [] of
        None \<Rightarrow> None
      | Some (buf, rs) \<Rightarrow>
          (case references of
             None \<Rightarrow> Some (Inr buf)
           | Some reflist \<Rightarrow>
               if length reflist \<ge> length rs then
                 (case format_urls reflist 0 rs of
                    Inl e \<Rightarrow> Some (Inl e)
                  | Inr listing \<Rightarrow>
                      Some (Inr (buf @ [CHR 0x0A, CHR 0x0A] @ ''References:'' @ [CHR 0x0A]
                                   @ listing)))
               else Some (Inr buf)))"

section \<open>JSON values\<close>

text \<open>
  A parsed JSON text. An object keeps its members in the order of the text; a number keeps
  its literal. \<open>JSON.parse\<close> itself is a built-in: the functions of the program take it as
  the parameter \<open>jp\<close>, \<open>None\<close> standing for a SyntaxError, and \<open>json_parse\<close> below is a
  concrete parser for the grammar of RFC 8259 (escapes \<open>\u\<close> above code unit 255 excepted)
  used to run the program on concrete transcripts.
\<close>

datatype json =
  JNull
  | JBool bool
  | JNum string
  | JStr string
  | JArr "json list"
  | JObj "(string \<times> json) list"

text \<open>
  Reading the property \<open>k\<close> of a value that is neither \<open>null\<close> nor \<open>undefined\<close>, for the
  keys \<open>choices\<close>, \<open>delta\<close>, \<open>content\<close>, \<open>message\<close>, \<open>hits\<close>: only an object can have them,
  and of two members with one key the later wins. \<open>None\<close> is \<open>undefined\<close>.
\<close>

fun field :: "json \<Rightarrow> string \<Rightarrow> json option" where
  "field (JObj kvs) k = map_of (rev kvs) k"
| "field _ k = None"

definition json_ws :: "char \<Rightarrow> bool" where
  "json_ws c \<longleftrightarrow> (of_char c :: nat) \<in> {9, 10, 13, 32}"

definition skip_ws :: "string \<Rightarrow> string" where
  "skip_ws s = dropWhile json_ws s"

definition hex_val :: "char \<Rightarrow> nat option" where
  "hex_val c =
     (let n = (of_char c :: nat) in
      if 48 \<le> n \<and> n \<le> 57 then Some (n - 48)
      else if 65 \<le> n \<and> n \<le> 70 then Some (n - 55)
      else if 97 \<le> n \<and> n \<le> 102 then Some (n - 87)
      else None)"

definition unescape :: "char \<Rightarrow> char option" where
  "unescape c =
     (if c = CHR ''\"'' \<or> c = CHR 0x5C \<or> c = CHR ''/'' then Some c
      else if c = CHR ''b'' then Some (CHR 0x08)
      else if c = CHR ''f'' then Some (CHR 0x0C)
      else if c = CHR ''n'' then Some (CHR 0x0A)
      else if c = CHR ''r'' then Some (CHR 0x0D)
      else if c = CHR ''t'' then Some (CHR 0x09)
      else None)"

text \<open>The characters of a string literal after its opening quote, and the rest.\<close>

fun jstring :: "string \<Rightarrow> (string \<times> string) option" where
  "jstring [] = None"
| "jstring (c # cs) =
     (if c = CHR ''\"'' then Some ([], cs)
      else if (of_char c :: nat) < 32 then None
      else if c = CHR 0x5C then
        (case cs of
           [] \<Rightarrow> None
         | e # es \<Rightarrow>
             if e = CHR ''u'' then
               (case es of
                  h1 # h2 # h3 # h4 # r \<Rightarrow>
                    (case (hex_val h1, hex_val h2, hex_val h3, hex_val h4) of
                       (Some a, Some b, Some c3, Some d) \<Rightarrow>
                         if a = 0 \<and> b = 0 then
                           map_option (\<lambda>(str, r'). (char_of (16 * c3 + d) # str, r')) (jstring r)
                         else None
                     | _ \<Rightarrow> None)
                | _ \<Rightarrow> None)
             else
               (case unescape e of
                  None \<Rightarrow> None
                | Some u \<Rightarrow> map_option (\<lambda>(str, r'). (u # str, r')) (jstring es)))
      else map_option (\<lambda>(str, r'). (c # str, r')) (jstring cs))"

text \<open>A number literal: \<open>-?(0|[1-9][0-9]*)(\.[0-9]+)?([eE][+-]?[0-9]+)?\<close>.\<close>

definition jdigits :: "string \<Rightarrow> string \<times> string" where
  "jdigits s = (takeWhile is_digit s, dropWhile is_digit s)"

definition jnumber :: "string \<Rightarrow> (string \<times> string) option" where
  "jnumber s =
     (let (sign, s1) = (if take 1 s = ''-'' then (''-'', drop 1 s) else ([], s));
          (ip, s2) = jdigits s1
      in if ip = [] \<or> (length ip > 1 \<and> take 1 ip = ''0'') then None
         else
           (let (frac, s3) =
                  (if take 1 s2 = ''.'' then
                     (let (fd, r) = jdigits (drop 1 s2) in (if fd = [] then None else Some (''.'' @ fd), r))
                   else (Some [], s2))
            in case frac of
                 None \<Rightarrow> None
               | Some fr \<Rightarrow>
                   if take 1 s3 = ''e'' \<or> take 1 s3 = ''E'' then
                     (let s4 = drop 1 s3;
                          (es, s5) = (if take 1 s4 = ''+'' \<or> take 1 s4 = ''-''
                                      then (take 1 s4, drop 1 s4) else ([], s4));
                          (ed, s6) = jdigits s5
                      in if ed = [] then None
                         else Some (sign @ ip @ fr @ take 1 s3 @ es @ ed, s6))
                   else Some (sign @ ip @ fr, s3)))"

text \<open>
  Values, the elements of an array after \<open>[\<close> and the members of an object after \<open>{\<close>.
  The first argument bounds the nesting and the number of items; \<open>json_parse\<close> passes the
  length of the text, which no text exceeds.
\<close>

fun jvalue :: "nat \<Rightarrow> string \<Rightarrow> (json \<times> string) option"
  and jelems :: "nat \<Rightarrow> string \<Rightarrow> (json list \<times> string) option"
  and jmembers :: "nat \<Rightarrow> string \<Rightarrow> ((string \<times> json) list \<times> string) option" where
  "jvalue 0 s = None"
| "jvalue (Suc n) s =
     (if take 4 s = ''null'' then Some (JNull, drop 4 s)
      else if take 4 s = ''true'' then Some (JBool True, drop 4 s)
      else if take 5 s = ''false'' then Some (JBool False, drop 5 s)
      else if take 1 s = [CHR ''\"''] then
        map_option (\<lambda>(str, r). (JStr str, r)) (jstring (drop 1 s))
      else if take 1 s = ''['' then
        (if take 1 (skip_ws (drop 1 s)) = '']'' then Some (JArr [], drop 1 (skip_ws (drop 1 s)))
         else map_option (\<lambda>(vs, r). (JArr vs, r)) (jelems n (skip_ws (drop 1 s))))
      else if take 1 s = ''{'' then
        (if take 1 (skip_ws (drop 1 s)) = ''}'' then Some (JObj [], drop 1 (skip_ws (drop 1 s)))
         else map_option (\<lambda>(kvs, r). (JObj kvs, r)) (jmembers n (skip_ws (drop 1 s))))
      else map_option (\<lambda>(lit, r). (JNum lit, r)) (jnumber s))"
| "jelems 0 s = None"
| "jelems (Suc n) s =
     (case jvalue n s of
        None \<Rightarrow> None
      | Some (v, r) \<Rightarrow>
          if take 1 (skip_ws r) = '','' then
            map_option (\<lambda>(vs, r'). (v # vs, r')) (jelems n (skip_ws (drop 1 (skip_ws r))))
          else if take 1 (skip_ws r) = '']'' then Some ([v], drop 1 (skip_ws r))
          else None)"
| "jmembers 0 s = None"
| "jmembers (Suc n) s =
     (if take 1 s = [CHR ''\"''] then
        (case jstring (drop 1 s) of
           None \<Rightarrow> None
         | Some (k, r) \<Rightarrow>
             if take 1 (skip_ws r) = '':'' then
               (case jvalue n (skip_ws (drop 1 (skip_ws r))) of
                  None \<Rightarrow> None
                | Some (v, r') \<Rightarrow>
                    if take 1 (skip_ws r') = '','' then
                      map_option (\<lambda>(kvs, r''). ((k, v) # kvs, r''))
                        (jmembers n (skip_ws (drop 1 (skip_ws r'))))
                    else if take 1 (skip_ws r') = ''}'' then Some ([(k, v)], drop 1 (skip_ws r'))
                    else None)
             else None)
      else None)"

definition json_parse :: "string \<Rightarrow> json option" where
  "json_parse s =
     (case jvalue (Suc (length s)) (skip_ws s) of
        None \<Rightarrow> None
      | Some (v, r) \<Rightarrow> if skip_ws r = [] then Some v else None)"

section \<open>Streaming path of chat\<close>

text \<open>
  \<open>parse\<close> (lines 101 to 118). The result is \<open>partial\<close>: \<open>Some JNull\<close> is \<open>null\<close>, its
  initial value, which also every exception inside the \<open>try\<close> leaves; \<open>None\<close> is
  \<open>undefined\<close>. Destructuring \<open>null\<close> or \<open>undefined\<close> raises, as does the array pattern on
  a value that is not iterable; a string is iterable and yields its first character.
\<close>

definition first_of :: "json \<Rightarrow> error + json option" where
  "first_of choices =
     (case choices of
        JArr xs \<Rightarrow> Inr (case xs of [] \<Rightarrow> None | x # _ \<Rightarrow> Some x)
      | JStr cs \<Rightarrow> Inr (case cs of [] \<Rightarrow> None | c # _ \<Rightarrow> Some (JStr [c]))
      | _ \<Rightarrow> Inl TypeError)"

definition delta_content :: "json \<Rightarrow> error + json option" where
  "delta_content v =
     (if v = JNull then Inl TypeError
      else case field v ''choices'' of
        None \<Rightarrow> Inl TypeError
      | Some choices \<Rightarrow>
          (case first_of choices of
             Inl e \<Rightarrow> Inl e
           | Inr None \<Rightarrow> Inl TypeError
           | Inr (Some choice) \<Rightarrow>
               if choice = JNull then Inl TypeError
               else (case field choice ''delta'' of
                       None \<Rightarrow> Inr None
                     | Some delta \<Rightarrow>
                         if delta = JNull then Inr None else Inr (field delta ''content''))))"

definition parse :: "(string \<Rightarrow> json option) \<Rightarrow> string \<Rightarrow> json option" where
  "parse jp line =
     (if take 6 line = ''data: '' then
        (case jp (drop 6 line) of
           None \<Rightarrow> Some JNull
         | Some v \<Rightarrow> (case delta_content v of Inl e \<Rightarrow> Some JNull | Inr partial \<Rightarrow> partial))
      else Some JNull)"

text \<open>
  The state of the read loop: the answer so far, the carry-over buffer, and the texts
  handed to the handler, oldest first. The streaming path runs only with a handler.
\<close>

record sse_state =
  sse_answer :: string
  sse_buffer :: string
  sse_emitted :: "string list"

datatype step =
  Next sse_state
  | Break sse_state
  | Raise error

text \<open>
  What the loop does with a \<open>partial\<close> that is not \<open>null\<close> (lines 144 to 153). A string
  delta is the case of the protocol. An array with elements reaches \<open>partial.trim()\<close>, which
  raises, while the answer is empty; after that the source appends its string coercion,
  which this model does not follow (\<open>Unsupported\<close>), as it does not follow the comparison
  of a \<open>length\<close> member of an object. Every other value fails the test and changes nothing.
\<close>

datatype delta_kind =
  Skip
  | Text string
  | Untrimmable
  | Unsupported

definition classify :: "json option \<Rightarrow> delta_kind" where
  "classify partial =
     (case partial of
        None \<Rightarrow> Skip
      | Some (JStr p) \<Rightarrow> if length p > 0 then Text p else Skip
      | Some (JArr xs) \<Rightarrow> if length xs > 0 then Untrimmable else Skip
      | Some (JObj kvs) \<Rightarrow> (case map_of (rev kvs) ''length'' of None \<Rightarrow> Skip | Some _ \<Rightarrow> Unsupported)
      | Some _ \<Rightarrow> Skip)"

definition on_text :: "sse_state \<Rightarrow> string \<Rightarrow> sse_state" where
  "on_text st p =
     (if length (sse_answer st) < 1 then
        (let leading = trim p
         in st\<lparr>sse_buffer := [], sse_answer := leading,
               sse_emitted := sse_emitted st @ (if length leading > 0 then [leading] else [])\<rparr>)
      else st\<lparr>sse_buffer := [], sse_answer := sse_answer st @ p,
               sse_emitted := sse_emitted st @ [p]\<rparr>)"

definition DONE :: string where
  "DONE = ''data: [DONE]''"

text \<open>The body of the \<open>for\<close> loop (lines 132 to 155) on one element of \<open>lines\<close>.\<close>

definition line_step :: "(string \<Rightarrow> json option) \<Rightarrow> sse_state \<Rightarrow> string \<Rightarrow> step" where
  "line_step jp st l =
     (let line = sse_buffer st @ l in
      if take 1 line = '':'' then Next (st\<lparr>sse_buffer := []\<rparr>)
      else if line = DONE then Break st
      else if length line > 0 then
        (let partial = parse jp line in
         if partial = Some JNull then Next (st\<lparr>sse_buffer := line\<rparr>)
         else (case classify partial of
                 Skip \<Rightarrow> Next st
               | Text p \<Rightarrow> Next (on_text st p)
               | Untrimmable \<Rightarrow>
                   if length (sse_answer st) < 1 then Raise TypeError else Raise Unmodelled
               | Unsupported \<Rightarrow> Raise Unmodelled))
      else Next st)"

fun process_lines :: "(string \<Rightarrow> json option) \<Rightarrow> sse_state \<Rightarrow> string list \<Rightarrow> error + sse_state" where
  "process_lines jp st [] = Inr st"
| "process_lines jp st (l # ls) =
     (case line_step jp st l of
        Next st' \<Rightarrow> process_lines jp st' ls
      | Break st' \<Rightarrow> Inr st'
      | Raise e \<Rightarrow> Inl e)"

text \<open>The line feed, and \<open>text.split('\n')\<close>.\<close>

definition NL :: string where
  "NL = [CHR 0x0A]"

fun split_nl :: "string \<Rightarrow> string list" where
  "split_nl [] = [[]]"
| "split_nl (c # cs) =
     (if c = CHR 0x0A then [] # split_nl cs
      else (case split_nl cs of [] \<Rightarrow> [[c]] | l # ls \<Rightarrow> (c # l) # ls))"

text \<open>
  The \<open>while\<close> loop (lines 125 to 157) over the chunks the reader delivers before it
  reports \<open>done\<close>. A chunk is given as the text \<open>decoder.decode(value)\<close> returns.
\<close>

fun read_loop :: "(string \<Rightarrow> json option) \<Rightarrow> sse_state \<Rightarrow> string list \<Rightarrow> error + sse_state" where
  "read_loop jp st [] = Inr st"
| "read_loop jp st (c # cs) =
     (case process_lines jp st (split_nl c) of
        Inl e \<Rightarrow> Inl e
      | Inr st' \<Rightarrow> read_loop jp st' cs)"

definition sse_init :: sse_state where
  "sse_init = \<lparr>sse_answer = [], sse_buffer = [], sse_emitted = []\<rparr>"

text \<open>The streaming path: the returned answer and the handler's calls.\<close>

definition chat_stream :: "(string \<Rightarrow> json option) \<Rightarrow> string list \<Rightarrow> error + (string \<times> string list)" where
  "chat_stream jp chunks =
     (case read_loop jp sse_init chunks of
        Inl e \<Rightarrow> Inl e
      | Inr st \<Rightarrow> Inr (sse_answer st, sse_emitted st))"

section \<open>Labelled-field codec\<close>

definition PREDEFINED_KEYS :: "string list" where
  "PREDEFINED_KEYS =
     [''INQUIRY'', ''TOOL'', ''LANGUAGE'', ''THOUGHT'', ''KEYPHRASES'', ''OBSERVATION'', ''TOPIC'']"

text \<open>\<open>toLowerCase\<close> and \<open>toUpperCase\<close>, on the letters A to Z; the program applies them to
  the markers only.\<close>

definition lower_char :: "char \<Rightarrow> char" where
  "lower_char c =
     (if 65 \<le> (of_char c :: nat) \<and> (of_char c :: nat) \<le> 90 then char_of ((of_char c :: nat) + 32)
      else c)"

definition upper_char :: "char \<Rightarrow> char" where
  "upper_char c =
     (if 97 \<le> (of_char c :: nat) \<and> (of_char c :: nat) \<le> 122 then char_of ((of_char c :: nat) - 32)
      else c)"

definition toLowerCase :: "string \<Rightarrow> string" where
  "toLowerCase s = map lower_char s"

definition toUpperCase :: "string \<Rightarrow> string" where
  "toUpperCase s = map upper_char s"

text \<open>\<open>xs.join(sep)\<close>.\<close>

fun join :: "string \<Rightarrow> string list \<Rightarrow> string" where
  "join sep [] = []"
| "join sep [x] = x"
| "join sep (x # y # ys) = x @ sep @ join sep (y # ys)"

text \<open>\<open>s.replace(pat, rep)\<close> with a string pattern: the first occurrence only. (The
  special patterns of a replacement text, such as \<open>$&\<close>, are not modelled.)\<close>

definition str_replace :: "string \<Rightarrow> string \<Rightarrow> string \<Rightarrow> string" where
  "str_replace s pat rep =
     (case str_indexOf s pat of
        None \<Rightarrow> s
      | Some i \<Rightarrow> take i s @ rep @ drop (i + length pat) s)"

text \<open>
  The \<open>for\<close> loop of \<open>deconstruct\<close> (lines 178 to 188) over \<open>keys\<close>, with the rest of the text
  \<open>str\<close> and the parts found so far. A mapping from lower-case keys to values is a map;
  an absent key reads as \<open>undefined\<close>.
\<close>

fun deconstruct_loop :: "string \<Rightarrow> string list \<Rightarrow> (string \<rightharpoonup> string) \<Rightarrow> (string \<rightharpoonup> string)" where
  "deconstruct_loop str [] parts = parts"
| "deconstruct_loop str (marker # keys) parts =
     (case lastIndexOf str (marker @ '':'') of
        None \<Rightarrow> deconstruct_loop str keys parts
      | Some pos \<Rightarrow>
          deconstruct_loop (take pos str) keys
            (parts(toLowerCase marker \<mapsto>
                     hd (split_nl (trim (drop (pos + length marker + 1) str))))))"

text \<open>\<open>deconstruct\<close>, for a non-empty list of markers, the last of which is the anchor.\<close>

definition deconstruct_with :: "string list \<Rightarrow> string \<Rightarrow> (string \<rightharpoonup> string)" where
  "deconstruct_with markers text =
     (let keys = rev markers; anchor = last markers in
      case lastIndexOf text (anchor @ '':'') of
        None \<Rightarrow> Map.empty
      | Some start \<Rightarrow>
          deconstruct_loop (take start text) keys
            [toLowerCase anchor \<mapsto> trim (str_replace (drop start text) (anchor @ '':'') [])])"

definition deconstruct :: "string \<Rightarrow> (string \<rightharpoonup> string)" where
  "deconstruct text = deconstruct_with PREDEFINED_KEYS text"

text \<open>\<open>construct\<close>: a value is kept when it is truthy, that is a non-empty string.\<close>

definition truthy :: "string option \<Rightarrow> bool" where
  "truthy v \<longleftrightarrow> (case v of None \<Rightarrow> False | Some x \<Rightarrow> x \<noteq> [])"

definition construct :: "(string \<rightharpoonup> string) \<Rightarrow> string" where
  "construct kv =
     join NL
       (map (\<lambda>key. case kv (toLowerCase key) of
                      Some v \<Rightarrow> if length v > 0 then toUpperCase key @ '': '' @ v else []
                    | None \<Rightarrow> [])
          (filter (\<lambda>key. truthy (kv (toLowerCase key))) PREDEFINED_KEYS))"

text \<open>\<open>breakdown\<close> (lines 268 to 276).\<close>

definition breakdown :: "string \<Rightarrow> string \<Rightarrow> (string \<rightharpoonup> string)" where
  "breakdown hint completion =
     (let text = hint @ completion; result = deconstruct text in
      if \<not> truthy (result ''topic'') then deconstruct (text @ NL @ ''TOPIC: general knowledge.'')
      else result)"

section \<open>The world outside and the effects of a run\<close>

text \<open>
  The two HTTP services answer each request with the next reply of a list fixed in
  advance; a request with no reply left fails as a rejected \<open>fetch\<close> does. A reply has the
  \<open>ok\<close> flag, the status and the body: the chat body as the chunks its reader delivers,
  the search body as text. \<open>Date.now()\<close> reads a clock given as a function of the number
  of earlier reads.
\<close>

record chat_reply =
  chat_ok :: bool
  chat_status :: nat
  chat_body :: "string list"

record search_reply =
  search_ok :: bool
  search_status :: nat
  search_body :: string

record message =
  role :: string
  content :: string

datatype request =
  ChatRequest "message list" bool
  | SearchRequest string

datatype stage_fields =
  ReasonFields "string option" "string option" "string option" "string option" "string option"
  | SearchFields "reference list"
  | RespondFields string

record stage_event =
  name :: string
  timestamp :: int
  info :: "stage_fields option"

record stage = stage_event +
  duration :: int

record env =
  JSON_parse :: "string \<Rightarrow> json option"
  Date_now :: "nat \<Rightarrow> int"
  LLM_STREAMING :: bool
  REASON_PROMPT :: string
  REASON_EXAMPLE :: string
  RESPOND_PROMPT :: string

record effects =
  llm_replies :: "chat_reply list"
  search_replies :: "search_reply list"
  clock_reads :: nat
  stages :: "stage_event list"
  streamed :: "string list"
  sent :: "request list"

text \<open>The delegates \<open>enter\<close> and \<open>leave\<close> that every front-end supplies (lines 598, 599).\<close>

definition enter :: "env \<Rightarrow> effects \<Rightarrow> string \<Rightarrow> effects" where
  "enter e fx nm =
     fx\<lparr>clock_reads := Suc (clock_reads fx),
        stages := stages fx @ [\<lparr>name = nm, timestamp = Date_now e (clock_reads fx), info = None\<rparr>]\<rparr>"

definition leave :: "env \<Rightarrow> effects \<Rightarrow> string \<Rightarrow> stage_fields \<Rightarrow> effects" where
  "leave e fx nm fs =
     fx\<lparr>clock_reads := Suc (clock_reads fx),
        stages := stages fx @ [\<lparr>name = nm, timestamp = Date_now e (clock_reads fx), info = Some fs\<rparr>]\<rparr>"

section \<open>chat\<close>

text \<open>\<open>choices[0]\<close> in the non-streaming path, and lines 91 to 95: each destructuring of
  \<open>null\<close> or \<open>undefined\<close> raises, and so does \<open>content.trim()\<close> unless \<open>content\<close> is a
  string.\<close>

definition index0 :: "json \<Rightarrow> json option" where
  "index0 v =
     (case v of
        JArr xs \<Rightarrow> (case xs of [] \<Rightarrow> None | x # _ \<Rightarrow> Some x)
      | JStr cs \<Rightarrow> (case cs of [] \<Rightarrow> None | c # _ \<Rightarrow> Some (JStr [c]))
      | JObj kvs \<Rightarrow> map_of (rev kvs) ''0''
      | _ \<Rightarrow> None)"

definition message_content :: "json \<Rightarrow> error + string" where
  "message_content data =
     (if data = JNull then Inl TypeError
      else case field data ''choices'' of
        None \<Rightarrow> Inl TypeError
      | Some choices \<Rightarrow>
          if choices = JNull then Inl TypeError
          else (case index0 choices of
                  None \<Rightarrow> Inl TypeError
                | Some first \<Rightarrow>
                    if first = JNull then Inl TypeError
                    else (case field first ''message'' of
                            None \<Rightarrow> Inl TypeError
                          | Some msg \<Rightarrow>
                              if msg = JNull then Inl TypeError
                              else (case field msg ''content'' of
                                      Some (JStr c) \<Rightarrow> Inr c
                                    | _ \<Rightarrow> Inl TypeError))))"

text \<open>
  \<open>chat\<close> (lines 68 to 159). \<open>handler\<close> tells whether a handler function was passed. The
  result is the answer or the error raised, with the effects: the request sent and the
  handler's calls. (When the streaming path raises, the calls made before are not kept.)
\<close>

definition chat :: "env \<Rightarrow> effects \<Rightarrow> message list \<Rightarrow> bool \<Rightarrow> (error + string) \<times> effects" where
  "chat e fx messages handler =
     (let stream = (LLM_STREAMING e \<and> handler) in
      case llm_replies fx of
        [] \<Rightarrow> (Inl NetworkError, fx\<lparr>sent := sent fx @ [ChatRequest messages stream]\<rparr>)
      | response # rest \<Rightarrow>
          (let fx1 = fx\<lparr>llm_replies := rest, sent := sent fx @ [ChatRequest messages stream]\<rparr> in
           if \<not> chat_ok response then (Inl (HTTPError (chat_status response)), fx1)
           else if \<not> stream then
             (case JSON_parse e (concat (chat_body response)) of
                None \<Rightarrow> (Inl SyntaxError, fx1)
              | Some data \<Rightarrow>
                  (case message_content data of
                     Inl err \<Rightarrow> (Inl err, fx1)
                   | Inr c \<Rightarrow>
                       (Inr (trim c),
                        fx1\<lparr>streamed := streamed fx1 @ (if handler then [trim c] else [])\<rparr>)))
           else
             (case chat_stream (JSON_parse e) (chat_body response) of
                Inl err \<Rightarrow> (Inl err, fx1)
              | Inr (ans, emitted) \<Rightarrow> (Inr ans, fx1\<lparr>streamed := streamed fx1 @ emitted\<rparr>))))"

section \<open>Pipeline stages\<close>

text \<open>An entry of the conversation history and the context passed from stage to stage.
  A field that a JavaScript object may lack is an option. \<open>stream\<close> tells whether the
  front-end supplied the \<open>stream\<close> delegate.\<close>

record history_entry =
  entry_inquiry :: string
  entry_thought :: "string option"
  entry_keyphrases :: "string option"
  entry_topic :: "string option"
  entry_references :: "reference list option"
  entry_answer :: string
  entry_duration :: int
  entry_stages :: "stage_event list"

record pipeline_context =
  inquiry :: string
  history :: "history_entry list"
  stream :: bool
  language :: "string option"
  topic :: "string option"
  thought :: "string option"
  keyphrases :: "string option"
  observation :: "string option"
  references :: "reference list option"
  answer :: "string option"

subsection \<open>reason\<close>

definition reason_hint :: string where
  "reason_hint = join NL [''TOOL: Google.'', ''LANGUAGE: '']"

definition retry_hint :: "string option \<Rightarrow> string" where
  "retry_hint th = join NL [''TOOL: Google.'', ''THOUGHT: '' @ show_opt th, ''KEYPHRASES: '']"

text \<open>The two messages that replay one history entry (lines 292 to 296).\<close>

definition replay :: "history_entry \<Rightarrow> message list" where
  "replay msg =
     [\<lparr>role = ''user'', content = entry_inquiry msg\<rparr>,
      \<lparr>role = ''assistant'',
       content = construct
         ((\<lambda>k. None)(''tool'' \<mapsto> ''Google.'',
                      ''thought'' := entry_thought msg,
                      ''keyphrases'' := entry_keyphrases msg,
                      ''observation'' \<mapsto> entry_answer msg,
                      ''topic'' := entry_topic msg))\<rparr>]"

definition reason_messages :: "env \<Rightarrow> pipeline_context \<Rightarrow> message list" where
  "reason_messages e ctx =
     (let relevant = drop (length (history ctx) - 3) (history ctx);
          prompt = REASON_PROMPT e @ (if length relevant = 0 then REASON_EXAMPLE e else [])
      in [\<lparr>role = ''system'', content = prompt\<rparr>] @ concat (map replay relevant)
           @ [\<lparr>role = ''user'', content = inquiry ctx\<rparr>])"

text \<open>The end of \<open>reason\<close> (lines 313 to 315): the fields of \<open>result\<close> are recorded with the
  \<open>leave\<close> event and returned under the fields the context already has.\<close>

definition or_else :: "'a option \<Rightarrow> 'a option \<Rightarrow> 'a option" where
  "or_else a b = (case a of Some x \<Rightarrow> Some x | None \<Rightarrow> b)"

definition reason_done :: "env \<Rightarrow> effects \<Rightarrow> pipeline_context \<Rightarrow> (string \<rightharpoonup> string) \<Rightarrow> (error + pipeline_context) \<times> effects" where
  "reason_done e fx ctx result =
     (Inr (ctx\<lparr>language := or_else (language ctx) (result ''language''),
              topic := or_else (topic ctx) (result ''topic''),
              thought := or_else (thought ctx) (result ''thought''),
              keyphrases := or_else (keyphrases ctx) (result ''keyphrases''),
              observation := or_else (observation ctx) (result ''observation'')\<rparr>),
      leave e fx ''Reason''
        (ReasonFields (result ''language'') (result ''topic'') (result ''thought'')
           (result ''keyphrases'') (result ''observation'')))"

definition reason :: "env \<Rightarrow> effects \<Rightarrow> pipeline_context \<Rightarrow> (error + pipeline_context) \<times> effects" where
  "reason e fx ctx =
     (let fx1 = enter e fx ''Reason'';
          messages = reason_messages e ctx
      in case chat e fx1 (messages @ [\<lparr>role = ''assistant'', content = reason_hint\<rparr>]) False of
           (Inl err, fx2) \<Rightarrow> (Inl err, fx2)
         | (Inr completion, fx2) \<Rightarrow>
             (let result = breakdown reason_hint completion in
              if \<not> truthy (result ''keyphrases'') then
                (let hint = retry_hint (result ''thought'') in
                 case chat e fx2 (messages @ [\<lparr>role = ''assistant'', content = hint\<rparr>]) False of
                   (Inl err, fx3) \<Rightarrow> (Inl err, fx3)
                 | (Inr completion2, fx3) \<Rightarrow> reason_done e fx3 ctx (breakdown hint completion2))
              else reason_done e fx2 ctx result))"

subsection \<open>search\<close>

definition TOP_K :: nat where
  "TOP_K = 3"

definition MAX_CHARS :: nat where
  "MAX_CHARS = 1000"

text \<open>\<open>keyphrases.replace(/\.$/, "").replace(/^"|"$/g, "")\<close>.\<close>

definition clean_query :: "string \<Rightarrow> string" where
  "clean_query kp =
     (let a = (if kp \<noteq> [] \<and> last kp = CHR ''.'' then butlast kp else kp);
          b = (if take 1 a = [CHR ''\"''] then drop 1 a else a)
      in if b \<noteq> [] \<and> last b = CHR ''\"'' then butlast b else b)"

text \<open>
  Lines 358 to 360 on one hit. \<open>title\<close> and \<open>url\<close> are kept when they are strings or
  absent, \<open>description\<close> and \<open>snippets\<close> default to the empty string and the empty array;
  \<open>snippets.join\<close> raises unless \<open>snippets\<close> is an array. Where the source would coerce a
  value that is no string into one, the model stops with \<open>Unmodelled\<close>.
\<close>

definition text_member :: "json \<Rightarrow> string \<Rightarrow> error + string option" where
  "text_member v k =
     (case field v k of
        None \<Rightarrow> Inr None
      | Some (JStr t) \<Rightarrow> Inr (Some t)
      | Some _ \<Rightarrow> Inl Unmodelled)"

fun texts :: "json list \<Rightarrow> string list option" where
  "texts [] = Some []"
| "texts (JStr t # vs) = map_option ((#) t) (texts vs)"
| "texts (_ # vs) = None"

definition snippets_of :: "json \<Rightarrow> error + string list" where
  "snippets_of hit =
     (case field hit ''snippets'' of
        None \<Rightarrow> Inr []
      | Some (JArr vs) \<Rightarrow> (case texts vs of None \<Rightarrow> Inl Unmodelled | Some ts \<Rightarrow> Inr ts)
      | Some _ \<Rightarrow> Inl TypeError)"

definition hit_reference :: "nat \<Rightarrow> json \<Rightarrow> error + reference" where
  "hit_reference i hit =
     (if hit = JNull then Inl TypeError
      else case (text_member hit ''title'', text_member hit ''url'',
                 text_member hit ''description'', snippets_of hit) of
        (Inr t, Inr u, Inr d, Inr sn) \<Rightarrow>
          Inr \<lparr>position = i + 1, title = t, url = u,
               snippet = (case d of None \<Rightarrow> [] | Some x \<Rightarrow> x) @ take MAX_CHARS (join NL sn)\<rparr>
      | (_, _, _, Inl err) \<Rightarrow> Inl err
      | _ \<Rightarrow> Inl Unmodelled)"

fun hit_references :: "nat \<Rightarrow> json list \<Rightarrow> error + reference list" where
  "hit_references i [] = Inr []"
| "hit_references i (hit # hits) =
     (case hit_reference i hit of
        Inl err \<Rightarrow> Inl err
      | Inr r \<Rightarrow> (case hit_references (Suc i) hits of Inl err \<Rightarrow> Inl err | Inr rs \<Rightarrow> Inr (r # rs)))"

text \<open>
  One pass through the body of \<open>search\<close> up to the point where it retries, raises or
  goes on to \<open>leave\<close>: the \<open>enter\<close> event, the query, the request, and then
  \<open>response.json()\<close> before the test of \<open>response.ok\<close>, as in lines 343 and 344.
\<close>

datatype fetched =
  Failed error
  | NotOk nat
  | NoHits
  | Hits "reference list"

definition search_fetch :: "env \<Rightarrow> effects \<Rightarrow> pipeline_context \<Rightarrow> fetched \<times> effects" where
  "search_fetch e fx ctx =
     (let fx1 = enter e fx ''Search'' in
      case keyphrases ctx of
        None \<Rightarrow> (Failed TypeError, fx1)
      | Some kp \<Rightarrow>
          (let fx2 = fx1\<lparr>sent := sent fx1 @ [SearchRequest (clean_query kp)]\<rparr> in
           case search_replies fx2 of
             [] \<Rightarrow> (Failed NetworkError, fx2)
           | response # rest \<Rightarrow>
               (let fx3 = fx2\<lparr>search_replies := rest\<rparr> in
                case JSON_parse e (search_body response) of
                  None \<Rightarrow> (Failed SyntaxError, fx3)
                | Some data \<Rightarrow>
                    if \<not> search_ok response then (NotOk (search_status response), fx3)
                    else if data = JNull then (Failed TypeError, fx3)
                    else (case field data ''hits'' of
                            Some (JArr hits) \<Rightarrow>
                              if length hits > 0 then
                                (case hit_references 0 (take TOP_K hits) of
                                   Inl err \<Rightarrow> (Failed err, fx3)
                                 | Inr rs \<Rightarrow> (Hits rs, fx3))
                              else (NoHits, fx3)
                          | _ \<Rightarrow> (NoHits, fx3)))))"

text \<open>\<open>search\<close> (lines 325 to 371); the front-ends call it with \<open>attempt = 3\<close>.\<close>

fun search :: "env \<Rightarrow> effects \<Rightarrow> pipeline_context \<Rightarrow> nat \<Rightarrow> (error + pipeline_context) \<times> effects" where
  "search e fx ctx attempt =
     (case search_fetch e fx ctx of
        (Failed err, fx') \<Rightarrow> (Inl err, fx')
      | (NotOk status, fx') \<Rightarrow>
          if attempt > 1 then search e fx' ctx (attempt - 1)
          else (Inl (SearchFailed status), fx')
      | (NoHits, fx') \<Rightarrow>
          if attempt > 1 then search e fx' ctx (attempt - 1)
          else (Inr (ctx\<lparr>references := Some []\<rparr>), leave e fx' ''Search'' (SearchFields []))
      | (Hits rs, fx') \<Rightarrow>
          (Inr (ctx\<lparr>references := Some rs\<rparr>), leave e fx' ''Search'' (SearchFields rs)))"

declare search.simps [simp del]

subsection \<open>respond\<close>

definition respond_messages :: "env \<Rightarrow> pipeline_context \<Rightarrow> message list" where
  "respond_messages e ctx =
     (case references ctx of
        None \<Rightarrow> []
      | Some rs \<Rightarrow>
          if length rs > 0 then
            [\<lparr>role = ''system'',
              content =
                str_replace
                  (str_replace (RESPOND_PROMPT e) ''{LANGUAGE}'' (show_opt (language ctx)))
                  ''{REFERENCES}''
                  (join NL
                     (map (\<lambda>r. ''[citation:'' @ show_nat (position r) @ ''] '' @ show_opt (title r)
                                  @ '' - '' @ snippet r) rs))\<rparr>,
             \<lparr>role = ''user'', content = inquiry ctx\<rparr>]
          else [])"

definition respond :: "env \<Rightarrow> effects \<Rightarrow> pipeline_context \<Rightarrow> (error + pipeline_context) \<times> effects" where
  "respond e fx ctx =
     (let fx1 = enter e fx ''Respond'' in
      case chat e fx1 (respond_messages e ctx) (stream ctx) of
        (Inl err, fx2) \<Rightarrow> (Inl err, fx2)
      | (Inr ans, fx2) \<Rightarrow>
          (Inr (ctx\<lparr>answer := or_else (answer ctx) (Some ans)\<rparr>),
           leave e fx2 ''Respond'' (RespondFields (inquiry ctx))))"

subsection \<open>The pipeline and the front-ends\<close>

text \<open>\<open>pipe(reason, search, respond)\<close>: each stage receives the context the one before
  returned; a stage that raises ends the run.\<close>

definition pipeline :: "env \<Rightarrow> effects \<Rightarrow> pipeline_context \<Rightarrow> (error + pipeline_context) \<times> effects" where
  "pipeline e fx ctx =
     (case reason e fx ctx of
        (Inl err, fx1) \<Rightarrow> (Inl err, fx1)
      | (Inr ctx1, fx1) \<Rightarrow>
          (case search e fx1 ctx1 3 of
             (Inl err, fx2) \<Rightarrow> (Inl err, fx2)
           | (Inr ctx2, fx2) \<Rightarrow> respond e fx2 ctx2))"

text \<open>\<open>simplify\<close> (lines 466 to 476): the events at odd indices, each with the time since
  the event before it.\<close>

definition isOdd :: "nat \<Rightarrow> bool" where
  "isOdd x \<longleftrightarrow> x mod 2 \<noteq> 0"

definition simplify :: "stage_event list \<Rightarrow> stage list" where
  "simplify sts =
     map (\<lambda>index. stage_event.extend (sts ! index)
                    \<lparr>duration = timestamp (sts ! index) - timestamp (sts ! (index - 1))\<rparr>)
       (filter isOdd [0..<length sts])"

definition new_context :: "string \<Rightarrow> history_entry list \<Rightarrow> bool \<Rightarrow> pipeline_context" where
  "new_context inq hist with_stream =
     \<lparr>inquiry = inq, history = hist, stream = with_stream, language = None, topic = None,
      thought = None, keyphrases = None, observation = None, references = None, answer = None\<rparr>"

text \<open>
  One \<open>User\<close> line of the test runner (lines 596 to 610): a run of the pipeline with
  fresh \<open>stages\<close>, then the push onto \<open>history\<close>. The result is the error raised, if any,
  the history afterwards and the effects.
\<close>

definition evaluate_user :: "env \<Rightarrow> effects \<Rightarrow> history_entry list \<Rightarrow> string \<Rightarrow> error option \<times> history_entry list \<times> effects" where
  "evaluate_user e fx hist inq =
     (let start = Date_now e (clock_reads fx);
          fx0 = fx\<lparr>clock_reads := Suc (clock_reads fx), stages := []\<rparr>
      in case pipeline e fx0 (new_context inq hist False) of
           (Inl err, fx1) \<Rightarrow> (Some err, hist, fx1)
         | (Inr result, fx1) \<Rightarrow>
             (None,
              hist @ [\<lparr>entry_inquiry = inq, entry_thought = thought result,
                       entry_keyphrases = keyphrases result, entry_topic = topic result,
                       entry_references = references result,
                       entry_answer = show_opt (answer result),
                       entry_duration = Date_now e (clock_reads fx1) - start,
                       entry_stages = stages fx1\<rparr>],
              fx1\<lparr>clock_reads := Suc (clock_reads fx1)\<rparr>))"

text \<open>
  One inquiry at the terminal (lines 757 to 787). The \<open>stream\<close> delegate pushes each text
  through the citation rewriter; after the pipeline the cited numbers are looked up in
  \<open>references\<close>, where a number outside the list raises, and only then is the entry
  pushed. \<open>None\<close> stands for a rewriting loop that does not return.
\<close>

fun push_all :: "display \<Rightarrow> string list \<Rightarrow> display option" where
  "push_all d [] = Some d"
| "push_all d (t # ts) = (case push d t of None \<Rightarrow> None | Some (d', out) \<Rightarrow> push_all d' ts)"

definition cited_ok :: "reference list option \<Rightarrow> nat list \<Rightarrow> bool" where
  "cited_ok rs cited \<longleftrightarrow>
     (case rs of
        None \<Rightarrow> True
      | Some rl \<Rightarrow> length rl \<ge> length cited \<longrightarrow> (\<forall>r \<in> set cited. 1 \<le> r \<and> r \<le> length rl))"

definition interact_ask :: "env \<Rightarrow> effects \<Rightarrow> display \<Rightarrow> history_entry list \<Rightarrow> string \<Rightarrow> (error option \<times> history_entry list \<times> display \<times> effects) option" where
  "interact_ask e fx disp hist inq =
     (let start = Date_now e (clock_reads fx);
          fx0 = fx\<lparr>clock_reads := Suc (clock_reads fx), stages := [], streamed := []\<rparr>
      in case pipeline e fx0 (new_context inq hist True) of
           (Inl err, fx1) \<Rightarrow>
             (case push_all disp (streamed fx1) of
                None \<Rightarrow> None
              | Some d \<Rightarrow> Some (Some err, hist, d, fx1))
         | (Inr result, fx1) \<Rightarrow>
             (case push_all disp (streamed fx1) of
                None \<Rightarrow> None
              | Some d \<Rightarrow>
                  if \<not> cited_ok (references result) (refs d)
                  then Some (Some TypeError, hist, fst (flush d), fx1\<lparr>clock_reads := Suc (clock_reads fx1)\<rparr>)
                  else
                    Some (None,
                          hist @ [\<lparr>entry_inquiry = inq, entry_thought = thought result,
                                   entry_keyphrases = keyphrases result, entry_topic = topic result,
                                   entry_references = None,
                                   entry_answer = show_opt (answer result),
                                   entry_duration = Date_now e (clock_reads fx1) - start,
                                   entry_stages = stages fx1\<rparr>],
                          fst (flush d),
                          fx1\<lparr>clock_reads := Suc (clock_reads fx1)\<rparr>)))"

section \<open>Vocabulary for statements about the streaming path\<close>

text \<open>A delta is blank when it holds white space only.\<close>

definition blank :: "string \<Rightarrow> bool" where
  "blank d \<longleftrightarrow> (\<forall>c \<in> set d. is_space c)"






text \<open>Transcripts for concrete runs: the frame a chat-completions endpoint sends for the
  delta \<open>d\<close> (for a \<open>d\<close> that needs no escaping).\<close>

definition sse_frame :: "string \<Rightarrow> string" where
  "sse_frame d = ''data: {\"choices\":[{\"delta\":{\"content\":\"'' @ d @ ''\"}}]}''"

text \<open>
  The reads cut the response anywhere, also inside a line. \<open>line_pieces opn cs\<close> lists, for
  each line of the response that the chunks \<open>cs\<close> make up, the pieces in which the loop
  meets it, in order: the last piece of a chunk and the first piece of the next chunk belong
  to one line. \<open>opn\<close> holds the pieces already read of the line that is still open.
\<close>

fun line_pieces :: "string list \<Rightarrow> string list \<Rightarrow> string list list" where
  "line_pieces opn [] = [opn]"
| "line_pieces opn (c # cs) =
     (case split_nl c of
        [] \<Rightarrow> line_pieces opn cs
      | p # ps \<Rightarrow>
          if ps = [] then line_pieces (opn @ [p]) cs
          else (opn @ [p]) # map (\<lambda>q. [q]) (butlast ps) @ line_pieces [last ps] cs)"




text \<open>
  For the proofs: \<open>process_lines\<close> telling a \<open>break\<close> from the end of the lines; the rest of
  a chunk's lines followed by the later chunks; and a state that an empty piece leaves as
  it is.
\<close>

fun run_lines :: "(string \<Rightarrow> json option) \<Rightarrow> sse_state \<Rightarrow> string list \<Rightarrow> step" where
  "run_lines jp st [] = Next st"
| "run_lines jp st (l # ls) =
     (case line_step jp st l of
        Next st' \<Rightarrow> run_lines jp st' ls
      | Break st' \<Rightarrow> Break st'
      | Raise e \<Rightarrow> Raise e)"

definition resume :: "(string \<Rightarrow> json option) \<Rightarrow> sse_state \<Rightarrow> string list \<Rightarrow> string list \<Rightarrow> error + sse_state" where
  "resume jp st ps cs =
     (case process_lines jp st ps of Inl e \<Rightarrow> Inl e | Inr st' \<Rightarrow> read_loop jp st' cs)"


section \<open>Vocabulary for statements about the pipeline\<close>

text \<open>The events that \<open>enter\<close> and \<open>leave\<close> record at the \<open>k\<close>-th reading of the clock.\<close>

definition enter_event :: "env \<Rightarrow> string \<Rightarrow> nat \<Rightarrow> stage_event" where
  "enter_event e nm k = \<lparr>name = nm, timestamp = Date_now e k, info = None\<rparr>"

definition leave_event :: "env \<Rightarrow> string \<Rightarrow> nat \<Rightarrow> stage_fields \<Rightarrow> stage_event" where
  "leave_event e nm k fs = \<lparr>name = nm, timestamp = Date_now e k, info = Some fs\<rparr>"

text \<open>Replies of the search service: one that is not \<open>ok\<close> and has a JSON body, and one that
  is \<open>ok\<close> and whose body has no non-empty array \<open>hits\<close>. \<open>requested\<close> is the state after the
  \<open>enter\<close> event and the request of one attempt.\<close>

definition error_reply :: "env \<Rightarrow> search_reply \<Rightarrow> bool" where
  "error_reply e r \<longleftrightarrow> \<not> search_ok r \<and> JSON_parse e (search_body r) \<noteq> None"

definition empty_reply :: "env \<Rightarrow> search_reply \<Rightarrow> bool" where
  "empty_reply e r \<longleftrightarrow>
     search_ok r \<and>
     (case JSON_parse e (search_body r) of
        None \<Rightarrow> False
      | Some data \<Rightarrow>
          data \<noteq> JNull \<and> (case field data ''hits'' of Some (JArr hits) \<Rightarrow> hits = [] | _ \<Rightarrow> True))"

definition requested :: "env \<Rightarrow> effects \<Rightarrow> string \<Rightarrow> search_reply list \<Rightarrow> effects" where
  "requested e fx kp rest =
     (enter e fx ''Search'')\<lparr>sent := sent fx @ [SearchRequest (clean_query kp)],
                              search_replies := rest\<rparr>"

section \<open>Sample worlds\<close>

text \<open>An environment and replies of the two services on which the pipeline is run below:
  a clock that advances by ten at every reading, answers of the chat endpoint to \<open>reason\<close>
  (with and without keyphrases) and to \<open>respond\<close> (as one JSON body and as a stream), and
  replies of the search service.\<close>

definition sample_env :: env where
  "sample_env =
     \<lparr>JSON_parse = json_parse, Date_now = (\<lambda>k. 10 * int k), LLM_STREAMING = True,
      REASON_PROMPT = ''P'', REASON_EXAMPLE = ''E'', RESPOND_PROMPT = ''{LANGUAGE}{REFERENCES}''\<rparr>"

definition chat_json :: "string \<Rightarrow> string" where
  "chat_json c = ''{\"choices\":[{\"message\":{\"content\":\"'' @ c @ ''\"}}]}''"

definition LF :: string where
  "LF = [CHR 0x5C, CHR ''n'']"

definition chat_200 :: "string list \<Rightarrow> chat_reply" where
  "chat_200 body = \<lparr>chat_ok = True, chat_status = 200, chat_body = body\<rparr>"

definition chat_500 :: chat_reply where
  "chat_500 = \<lparr>chat_ok = False, chat_status = 500, chat_body = []\<rparr>"

definition reasoned :: chat_reply where
  "reasoned = chat_200 [chat_json (''en'' @ LF @ ''KEYPHRASES: ceo.'' @ LF @ ''TOPIC: x'')]"

definition reasoned_empty :: chat_reply where
  "reasoned_empty = chat_200 [chat_json (''en'' @ LF @ ''KEYPHRASES: '' @ LF @ ''TOPIC: x'')]"

definition answered :: chat_reply where
  "answered = chat_200 [chat_json ''A[citation:1]'']"

definition answered_stream :: chat_reply where
  "answered_stream = chat_200 [sse_frame '' A[citation:1]'' @ NL @ NL @ DONE @ NL]"

definition no_hits :: search_reply where
  "no_hits = \<lparr>search_ok = True, search_status = 200, search_body = ''{\"hits\":[]}''\<rparr>"

definition one_hit :: search_reply where
  "one_hit =
     \<lparr>search_ok = True, search_status = 200,
      search_body = ''{\"hits\":[{\"title\":\"T\",\"url\":\"u\"}]}''\<rparr>"

definition server_error :: search_reply where
  "server_error = \<lparr>search_ok = False, search_status = 500, search_body = ''{}''\<rparr>"

definition gateway_error :: search_reply where
  "gateway_error =
     \<lparr>search_ok = False, search_status = 502, search_body = ''<html>''\<rparr>"

definition world :: "chat_reply list \<Rightarrow> search_reply list \<Rightarrow> effects" where
  "world cs ss =
     \<lparr>llm_replies = cs, search_replies = ss, clock_reads = 0, stages = [], streamed = [], sent = []\<rparr>"

definition asked :: pipeline_context where
  "asked = new_context ''Who?'' [] False"

text \<open>The run of the pipeline that \<open>evaluate_user\<close> and \<open>interact_ask\<close> start.\<close>

definition evaluate_run :: "env \<Rightarrow> effects \<Rightarrow> history_entry list \<Rightarrow> string \<Rightarrow> (error + pipeline_context) \<times> effects" where
  "evaluate_run e fx hist inq =
     pipeline e (fx\<lparr>clock_reads := Suc (clock_reads fx), stages := []\<rparr>) (new_context inq hist False)"

definition interact_run :: "env \<Rightarrow> effects \<Rightarrow> history_entry list \<Rightarrow> string \<Rightarrow> (error + pipeline_context) \<times> effects" where
  "interact_run e fx hist inq =
     pipeline e (fx\<lparr>clock_reads := Suc (clock_reads fx), stages := [], streamed := []\<rparr>)
       (new_context inq hist True)"

section \<open>Vocabulary for statements about the codec\<close>

text \<open>
  A value that \<open>deconstruct\<close> reads back as it is: not empty, with no white space at
  either end, on one line, and containing no marker followed by a colon.
\<close>

definition clean_value :: "string \<Rightarrow> bool" where
  "clean_value v \<longleftrightarrow>
     v \<noteq> [] \<and> \<not> is_space (hd v) \<and> \<not> is_space (last v) \<and> CHR 0x0A \<notin> set v
     \<and> (\<forall>m \<in> set PREDEFINED_KEYS. \<not> sublist (m @ '':'') v)"

text \<open>The markers \<open>construct\<close> writes, the text of the lines of a list of markers (each with
  its line feed), and the parts after the loop of \<open>deconstruct\<close> has found the markers
  \<open>rs\<close>.\<close>

definition present :: "(string \<rightharpoonup> string) \<Rightarrow> string \<Rightarrow> bool" where
  "present kv key \<longleftrightarrow> truthy (kv (toLowerCase key))"

definition field_lines :: "(string \<rightharpoonup> string) \<Rightarrow> string list \<Rightarrow> string" where
  "field_lines kv ks = concat (map (\<lambda>k. k @ '': '' @ the (kv (toLowerCase k)) @ NL) ks)"

definition restored :: "(string \<rightharpoonup> string) \<Rightarrow> (string \<rightharpoonup> string) \<Rightarrow> string list \<Rightarrow> (string \<rightharpoonup> string)" where
  "restored kv parts rs = foldl (\<lambda>p m. p(toLowerCase m \<mapsto> the (kv (toLowerCase m)))) parts rs"

definition leading_keys :: "string list" where
  "leading_keys = butlast PREDEFINED_KEYS"

text \<open>A mapping for a concrete round trip.\<close>

definition sample_fields :: "string \<rightharpoonup> string" where
  "sample_fields = [''tool'' \<mapsto> ''Google.'', ''thought'' \<mapsto> ''think about it'', ''topic'' \<mapsto> ''geo'']"

section \<open>Properties of the citation rewriters\<close>

text \<open>
  C7, as stated: one \<open>push\<close> of \<open>foo[citation:3] bar[citation:1] baz[citation:3]\<close>
  followed by \<open>flush\<close> writes \<open>foo[1] bar[2] baz[1]\<close>. The terminal rewriter wraps every
  number in colour escapes, so what it writes is not that string.
\<close>

theorem push_then_flush_not_plain:
  "push_then_flush ''foo[citation:3] bar[citation:1] baz[citation:3]''
     \<noteq> Some ''foo[1] bar[2] baz[1]''"
  by code_simp

text \<open>
  C7, amended: the terminal rewriter writes \<open>foo[1] bar[2] baz[1]\<close> with each \<open>[k]\<close>
  between the escape sequences GRAY and NORMAL, and the Telegram formatter, given no list
  of references, returns exactly \<open>foo[1] bar[2] baz[1]\<close>: in both, digits are numbered
  densely in order of first appearance and a repeated digit keeps its number.
\<close>

theorem citation_dense_renumbering:
  "push_then_flush ''foo[citation:3] bar[citation:1] baz[citation:3]''
     = Some (''foo'' @ GRAY @ ''[1]'' @ NORMAL @ '' bar'' @ GRAY @ ''[2]'' @ NORMAL
               @ '' baz'' @ GRAY @ ''[1]'' @ NORMAL)
   \<and> format ''foo[citation:3] bar[citation:1] baz[citation:3]'' None
     = Some (Inr ''foo[1] bar[2] baz[1]'')"
  by code_simp

text \<open>
  C8: a marker with a two-digit number is left as literal text. On \<open>[citation:12]\<close> the
  terminal rewriter accepts the capture \<open>12\<close> (as strings, \<open>'0' <= '12' <= '9'\<close>), replaces
  the first 12 characters of the 13-character marker and leaves a stray \<open>]\<close>; the
  Telegram formatter reads the digit \<open>1\<close> and does the same.
\<close>

theorem two_digit_marker_rewritten:
  "push_then_flush ''[citation:12]'' = Some (GRAY @ ''[1]'' @ NORMAL @ '']'')
   \<and> format ''[citation:12]'' None = Some (Inr ''[1]]'')"
  by code_simp

section \<open>Properties of the streaming path of chat\<close>








lemma trimLeft_blank: "blank d \<Longrightarrow> trimLeft (d @ r) = trimLeft r"
  by (simp add: trimLeft_def blank_def dropWhile_append)


lemma trimLeft_concat_dropWhile: "trimLeft (concat ds) = trimLeft (concat (dropWhile blank ds))"
  by (induction ds) (simp_all add: trimLeft_blank)









lemma run_append_Break: "run_lines jp st xs = Break s \<Longrightarrow> run_lines jp st (xs @ ys) = Break s"
  by (induction xs arbitrary: st) (simp_all split: step.splits)








lemma read_loop_resume: "read_loop jp st (c # cs) = resume jp st (split_nl c) cs"
  by (simp add: resume_def)



lemma split_nl_not_Nil: "split_nl s \<noteq> []"
  by (induction s) (auto split: list.splits)



lemma split_nl_append:
  "split_nl (a @ b) = butlast (split_nl a) @ (last (split_nl a) @ hd (split_nl b)) # tl (split_nl b)"
proof (induction a)
  case Nil
  then show ?case using split_nl_not_Nil[of b] by simp
next
  case (Cons c a)
  show ?case
  proof (cases "c = CHR 0x0A")
    case True
    with Cons show ?thesis using split_nl_not_Nil[of a] by simp
  next
    case False
    obtain l ls where S: "split_nl a = l # ls" using split_nl_not_Nil[of a] by (cases "split_nl a") auto
    show ?thesis
    proof (cases "ls = []")
      case True
      with S False Cons show ?thesis by simp
    next
      case ne: False
      with S False Cons show ?thesis by simp
    qed
  qed
qed

lemma line_pieces_lines_gen:
  "map concat (line_pieces opn cs) =
     (concat opn @ hd (split_nl (concat cs))) # tl (split_nl (concat cs))"
proof (induction cs arbitrary: opn)
  case Nil
  then show ?case by simp
next
  case (Cons c cs)
  obtain p ps where S: "split_nl c = p # ps" using split_nl_not_Nil[of c] by (cases "split_nl c") auto
  let ?L = "split_nl (concat cs)"
  have L: "split_nl (concat (c # cs)) = butlast (p # ps) @ (last (p # ps) @ hd ?L) # tl ?L"
    using split_nl_append[of c "concat cs"] S by simp
  show ?case
  proof (cases "ps = []")
    case True
    with S L Cons.IH[of "opn @ [p]"] show ?thesis by simp
  next
    case False
    have m: "map (concat \<circ> (\<lambda>q. [q])) xs = xs" for xs :: "string list"
      by (induction xs) simp_all
    from False S L Cons.IH[of "[last ps]"] show ?thesis by (simp add: m)
  qed
qed

lemma line_pieces_lines: "map concat (line_pieces [] cs) = split_nl (concat cs)"
  using line_pieces_lines_gen[of "[]" cs] split_nl_not_Nil[of "concat cs"] by simp










lemma line_pieces_single: "line_pieces [] [c] = map (\<lambda>p. [p]) (split_nl c)"
proof (cases "split_nl c")
  case Nil
  then show ?thesis using split_nl_not_Nil[of c] by simp
next
  case (Cons p ps)
  show ?thesis
  proof (cases "ps = []")
    case True
    with Cons show ?thesis by simp
  next
    case False
    then have "map (\<lambda>p. [p]) (butlast ps @ [last ps]) = map (\<lambda>p. [p]) ps" by simp
    then have "map (\<lambda>p. [p]) (butlast ps) @ [[last ps]] = map (\<lambda>p. [p]) ps"
      by (simp del: append_butlast_last_id)
    with Cons False show ?thesis by simp
  qed
qed




text \<open>
  C2: splitting a transcript into read chunks does not change the answer. Two transcripts
  on which it does: a comment line cut after \<open>: keep\<close> (the first piece clears the buffer
  and the second, \<open>-alive\<close>, is carried into every later line), and a frame with an empty
  delta cut in two (the completed frame is skipped without clearing the buffer, so its
  first piece stays in front of every later line).
\<close>

theorem split_loses_answer:
  "chat_stream json_parse ['': keep-alive'' @ NL @ NL @ sse_frame ''hi'' @ NL @ NL @ DONE @ NL]
     = Inr (''hi'', [''hi''])
   \<and> chat_stream json_parse ['': keep'', ''-alive'' @ NL @ NL @ sse_frame ''hi'' @ NL @ NL @ DONE @ NL]
     = Inr ([], [])
   \<and> chat_stream json_parse [sse_frame [] @ NL @ NL @ sse_frame ''hi'' @ NL @ NL @ DONE @ NL]
     = Inr (''hi'', [''hi''])
   \<and> chat_stream json_parse
       [take 20 (sse_frame []), drop 20 (sse_frame []) @ NL @ NL @ sse_frame ''hi'' @ NL @ NL @ DONE @ NL]
     = Inr ([], [])"
  by code_simp

text \<open>
  C10, as stated: every non-empty line that does not begin with \<open>:\<close> and is no complete
  JSON frame is stored in the buffer. The terminator \<open>data: [DONE]\<close> is such a line
  (\<open>[DONE]\<close> is no JSON text); the loop leaves on it before \<open>parse\<close>, stores nothing, and
  drops the rest of the chunk.
\<close>

theorem terminator_not_carried:
  "DONE \<noteq> [] \<and> take 1 DONE \<noteq> '':'' \<and> parse json_parse DONE = Some JNull
   \<and> line_step json_parse sse_init DONE = Break sse_init
   \<and> process_lines json_parse sse_init [DONE, sse_frame ''hi'']
       = Inr \<lparr>sse_answer = [], sse_buffer = [], sse_emitted = []\<rparr>"
  by code_simp

text \<open>
  C10, amended: a line (the buffer followed by the text read) that is not empty, does not
  begin with \<open>:\<close>, is not the terminator and for which \<open>parse\<close> returns \<open>null\<close> becomes the
  buffer; the next line is examined with it in front. A line of six or more characters
  that does not begin with \<open>data: \<close>, such as an \<open>event:\<close> field, therefore takes the
  following line into the buffer too, whatever that line is.
\<close>

theorem carry_over_line:
  assumes "line = sse_buffer st @ l"
    and "line \<noteq> []" and "take 1 line \<noteq> '':''" and "line \<noteq> DONE"
    and "parse jp line = Some JNull"
  shows "line_step jp st l = Next (st\<lparr>sse_buffer := line\<rparr>)
         \<and> (6 \<le> length line \<and> take 6 line \<noteq> ''data: '' \<longrightarrow>
              line_step jp (st\<lparr>sse_buffer := line\<rparr>) l' = Next (st\<lparr>sse_buffer := line @ l'\<rparr>))"
proof
  show "line_step jp st l = Next (st\<lparr>sse_buffer := line\<rparr>)"
    using assms by (simp add: line_step_def)
next
  show "6 \<le> length line \<and> take 6 line \<noteq> ''data: '' \<longrightarrow>
          line_step jp (st\<lparr>sse_buffer := line\<rparr>) l' = Next (st\<lparr>sse_buffer := line @ l'\<rparr>)"
  proof
    assume a: "6 \<le> length line \<and> take 6 line \<noteq> ''data: ''"
    then have t6: "take 6 (line @ l') \<noteq> ''data: ''" by simp
    then have p: "parse jp (line @ l') = Some JNull" by (simp add: parse_def)
    have nd: "line @ l' \<noteq> DONE"
    proof
      assume "line @ l' = DONE"
      then have "take 6 (line @ l') = take 6 DONE" by (simp only:)
      with t6 show False by (simp add: DONE_def)
    qed
    have t1: "take 1 (line @ l') \<noteq> '':''" using assms(2,3) by (cases line) auto
    show "line_step jp (st\<lparr>sse_buffer := line\<rparr>) l' = Next (st\<lparr>sse_buffer := line @ l'\<rparr>)"
      using p nd t1 assms(2) by (simp add: line_step_def)
  qed
qed

theorem carry_over_line_witness:
  "line_step json_parse sse_init ''event: message'' = Next (sse_init\<lparr>sse_buffer := ''event: message''\<rparr>)
   \<and> line_step json_parse (sse_init\<lparr>sse_buffer := ''event: message''\<rparr>) (sse_frame ''hi'')
       = Next (sse_init\<lparr>sse_buffer := ''event: message'' @ sse_frame ''hi''\<rparr>)
   \<and> chat_stream json_parse [''event: message'' @ NL @ sse_frame ''hi'' @ NL @ NL @ DONE @ NL]
       = Inr ([], [])"
proof -
  have h1: "''event: message'' = sse_buffer sse_init @ ''event: message''" by (simp add: sse_init_def)
  have h2: "''event: message'' \<noteq> []" by simp
  have h3: "take 1 ''event: message'' \<noteq> '':''" by simp
  have h4: "''event: message'' \<noteq> DONE" by (simp add: DONE_def)
  have h5: "parse json_parse ''event: message'' = Some JNull" by (simp add: parse_def)
  have h6: "6 \<le> length ''event: message'' \<and> take 6 ''event: message'' \<noteq> ''data: ''" by simp
  have c: "chat_stream json_parse [''event: message'' @ NL @ sse_frame ''hi'' @ NL @ NL @ DONE @ NL]
       = Inr ([], [])" by code_simp
  show ?thesis
    using carry_over_line[OF h1 h2 h3 h4 h5, of "sse_frame ''hi''"] h6 c by simp
qed

section \<open>Properties of the pipeline\<close>

lemma enter_simps:
  "stages (enter e fx nm) = stages fx @ [enter_event e nm (clock_reads fx)]"
  "clock_reads (enter e fx nm) = Suc (clock_reads fx)"
  "search_replies (enter e fx nm) = search_replies fx"
  "llm_replies (enter e fx nm) = llm_replies fx"
  by (simp_all add: enter_def enter_event_def)

lemma leave_simps:
  "stages (leave e fx nm fs) = stages fx @ [leave_event e nm (clock_reads fx) fs]"
  "clock_reads (leave e fx nm fs) = Suc (clock_reads fx)"
  "search_replies (leave e fx nm fs) = search_replies fx"
  "llm_replies (leave e fx nm fs) = llm_replies fx"
  by (simp_all add: leave_def leave_event_def)

lemma chat_frame:
  assumes "chat e fx ms h = (r, fx')"
  shows "stages fx' = stages fx \<and> clock_reads fx' = clock_reads fx
         \<and> search_replies fx' = search_replies fx"
  using assms
  by (auto simp: chat_def Let_def split: list.splits option.splits sum.splits if_splits prod.splits)

lemma reason_events:
  assumes "reason e fx ctx = (Inr c, fx')"
  shows "\<exists>fs. stages fx' = stages fx @ [enter_event e ''Reason'' (clock_reads fx),
                                         leave_event e ''Reason'' (Suc (clock_reads fx)) fs]
              \<and> clock_reads fx' = clock_reads fx + 2
              \<and> search_replies fx' = search_replies fx
              \<and> inquiry c = inquiry ctx"
proof -
  let ?fx1 = "enter e fx ''Reason''"
  let ?ms = "reason_messages e ctx"
  obtain r1 fx2 where c1: "chat e ?fx1 (?ms @ [\<lparr>role = ''assistant'', content = reason_hint\<rparr>]) False = (r1, fx2)"
    by (cases "chat e ?fx1 (?ms @ [\<lparr>role = ''assistant'', content = reason_hint\<rparr>]) False")
  note f1 = chat_frame[OF c1]
  show ?thesis
  proof (cases r1)
    case (Inl err)
    with assms c1 show ?thesis by (simp add: reason_def Let_def)
  next
    case (Inr completion)
    let ?res = "breakdown reason_hint completion"
    show ?thesis
    proof (cases "truthy (?res ''keyphrases'')")
      case True
      with assms c1 Inr have "reason_done e fx2 ctx ?res = (Inr c, fx')"
        by (simp add: reason_def Let_def)
      then show ?thesis using f1
        by (auto simp: reason_done_def leave_simps enter_simps)
    next
      case False
      let ?hint = "retry_hint (?res ''thought'')"
      obtain r2 fx3 where c2: "chat e fx2 (?ms @ [\<lparr>role = ''assistant'', content = ?hint\<rparr>]) False = (r2, fx3)"
        by (cases "chat e fx2 (?ms @ [\<lparr>role = ''assistant'', content = ?hint\<rparr>]) False")
      note f2 = chat_frame[OF c2]
      show ?thesis
      proof (cases r2)
        case (Inl err)
        with assms c1 c2 Inr False show ?thesis by (simp add: reason_def Let_def)
      next
        case (Inr completion2)
        with assms c1 c2 \<open>r1 = Inr completion\<close> False
        have "reason_done e fx3 ctx (breakdown ?hint completion2) = (Inr c, fx')"
          by (simp add: reason_def Let_def)
        then show ?thesis using f1 f2
          by (auto simp: reason_done_def leave_simps enter_simps)
      qed
    qed
  qed
qed

lemma respond_events:
  assumes "respond e fx ctx = (Inr c, fx')"
  shows "stages fx' = stages fx @ [enter_event e ''Respond'' (clock_reads fx),
                                   leave_event e ''Respond'' (Suc (clock_reads fx))
                                     (RespondFields (inquiry ctx))]
         \<and> clock_reads fx' = clock_reads fx + 2
         \<and> search_replies fx' = search_replies fx
         \<and> answer c \<noteq> None"
proof -
  let ?fx1 = "enter e fx ''Respond''"
  obtain r fx2 where c1: "chat e ?fx1 (respond_messages e ctx) (stream ctx) = (r, fx2)"
    by (cases "chat e ?fx1 (respond_messages e ctx) (stream ctx)")
  note f1 = chat_frame[OF c1]
  show ?thesis using assms c1 f1
    by (cases r) (auto simp: respond_def Let_def leave_simps enter_simps or_else_def split: option.splits)
qed

lemma search_fetch_effects:
  assumes "search_fetch e fx ctx = (out, fx')"
  shows "stages fx' = stages fx @ [enter_event e ''Search'' (clock_reads fx)]"
    and "clock_reads fx' = Suc (clock_reads fx)"
    and "llm_replies fx' = llm_replies fx"
    and "streamed fx' = streamed fx"
    and "length (sent fx') \<le> Suc (length (sent fx))"
    and "(\<forall>err. out \<noteq> Failed err) \<Longrightarrow> length (search_replies fx) = Suc (length (search_replies fx'))"
  using assms
  by (auto simp: search_fetch_def Let_def enter_def enter_event_def
           split: option.splits list.splits if_splits sum.splits json.splits)

lemma search_requests:
  "search e fx ctx n = (r, fx') \<Longrightarrow> length (sent fx') \<le> length (sent fx) + max n 1"
proof (induction e fx ctx n arbitrary: r fx' rule: search.induct)
  case (1 e fx ctx attempt)
  obtain out fx1 where sf: "search_fetch e fx ctx = (out, fx1)"
    by (cases "search_fetch e fx ctx")
  note un = search.simps[of e fx ctx attempt]
  note le = search_fetch_effects(5)[OF sf]
  show ?case
  proof (cases "attempt > 1")
    case True
    show ?thesis
    proof (cases out)
      case (Failed err)
      with "1.prems" sf le show ?thesis by (simp add: un leave_def)
    next
      case (NotOk st)
      with "1.prems" sf True have "search e fx1 ctx (attempt - 1) = (r, fx')" by (simp add: un)
      from "1.IH"(1)[OF sf[symmetric] NotOk True this] sf le True show ?thesis by simp
    next
      case NoHits
      with "1.prems" sf True have "search e fx1 ctx (attempt - 1) = (r, fx')" by (simp add: un)
      from "1.IH"(2)[OF sf[symmetric] NoHits True this] sf le True show ?thesis by simp
    next
      case (Hits rs)
      with "1.prems" sf le show ?thesis by (auto simp: un leave_def)
    qed
  next
    case False
    with "1.prems" sf le show ?thesis
      by (cases out) (auto simp: un leave_def)
  qed
qed

lemma search_events:
  "search e fx ctx n = (Inr c, fx') \<Longrightarrow>
     \<exists>k rs. 1 \<le> k \<and> k \<le> max n 1
       \<and> length (search_replies fx) = length (search_replies fx') + k
       \<and> stages fx' = stages fx @ map (enter_event e ''Search'') [clock_reads fx ..< clock_reads fx + k]
                         @ [leave_event e ''Search'' (clock_reads fx + k) (SearchFields rs)]
       \<and> clock_reads fx' = clock_reads fx + k + 1
       \<and> c = ctx\<lparr>references := Some rs\<rparr>"
proof (induction e fx ctx n arbitrary: c fx' rule: search.induct)
  case (1 e fx ctx attempt)
  obtain out fx1 where sf: "search_fetch e fx ctx = (out, fx1)"
    by (cases "search_fetch e fx ctx")
  note un = search.simps[of e fx ctx attempt]
  note st = search_fetch_effects(1)[OF sf] and cr = search_fetch_effects(2)[OF sf]
    and sr = search_fetch_effects(6)[OF sf]
  have retry: ?case if again: "search e fx1 ctx (attempt - 1) = (Inr c, fx')" and gt: "attempt > 1"
    and ih: "\<And>c fx'. search e fx1 ctx (attempt - 1) = (Inr c, fx') \<Longrightarrow>
      \<exists>k rs. 1 \<le> k \<and> k \<le> max (attempt - 1) 1
       \<and> length (search_replies fx1) = length (search_replies fx') + k
       \<and> stages fx' = stages fx1 @ map (enter_event e ''Search'') [clock_reads fx1 ..< clock_reads fx1 + k]
                         @ [leave_event e ''Search'' (clock_reads fx1 + k) (SearchFields rs)]
       \<and> clock_reads fx' = clock_reads fx1 + k + 1
       \<and> c = ctx\<lparr>references := Some rs\<rparr>"
    and nf: "\<forall>err. out \<noteq> Failed err"
  proof -
    from ih[OF again] obtain k rs where k: "1 \<le> k" "k \<le> max (attempt - 1) 1"
      "length (search_replies fx1) = length (search_replies fx') + k"
      "stages fx' = stages fx1 @ map (enter_event e ''Search'') [clock_reads fx1 ..< clock_reads fx1 + k]
                         @ [leave_event e ''Search'' (clock_reads fx1 + k) (SearchFields rs)]"
      "clock_reads fx' = clock_reads fx1 + k + 1" "c = ctx\<lparr>references := Some rs\<rparr>"
      by blast
    have up: "[clock_reads fx ..< clock_reads fx + Suc k]
                = clock_reads fx # [Suc (clock_reads fx) ..< Suc (clock_reads fx) + k]"
      by (simp add: upt_rec)
    show ?thesis
      apply (rule exI[of _ "Suc k"], rule exI[of _ rs])
      using k gt sr[OF nf] st cr up by (simp del: upt_Suc)
  qed
  show ?case
  proof (cases out)
    case (Failed err)
    with "1.prems" sf show ?thesis by (simp add: un)
  next
    case (NotOk status)
    show ?thesis
    proof (cases "attempt > 1")
      case True
      with "1.prems" sf NotOk have "search e fx1 ctx (attempt - 1) = (Inr c, fx')" by (simp add: un)
      then show ?thesis using True "1.IH"(1)[OF sf[symmetric] NotOk True] NotOk
        by (intro retry) auto
    next
      case False
      with "1.prems" sf NotOk show ?thesis by (simp add: un)
    qed
  next
    case NoHits
    show ?thesis
    proof (cases "attempt > 1")
      case True
      with "1.prems" sf NoHits have "search e fx1 ctx (attempt - 1) = (Inr c, fx')" by (simp add: un)
      then show ?thesis using True "1.IH"(2)[OF sf[symmetric] NoHits True] NoHits
        by (intro retry) auto
    next
      case False
      with "1.prems" sf NoHits have "c = ctx\<lparr>references := Some []\<rparr>"
        and "fx' = leave e fx1 ''Search'' (SearchFields [])" by (auto simp: un)
      then show ?thesis
        apply (intro exI[of _ 1] exI[of _ "[]"])
        using st cr sr NoHits by (simp add: leave_simps)
    qed
  next
    case (Hits rs)
    with "1.prems" sf have "c = ctx\<lparr>references := Some rs\<rparr>"
      and "fx' = leave e fx1 ''Search'' (SearchFields rs)" by (auto simp: un)
    then show ?thesis
      apply (intro exI[of _ 1] exI[of _ rs])
      using st cr sr Hits by (simp add: leave_simps)
  qed
qed

lemma pipeline_stages:
  assumes "pipeline e fx ctx = (Inr result, fx')"
  shows "\<exists>k f1 rs. 1 \<le> k \<and> k \<le> 3
           \<and> length (search_replies fx) = length (search_replies fx') + k
           \<and> stages fx' = stages fx
               @ [enter_event e ''Reason'' (clock_reads fx),
                  leave_event e ''Reason'' (clock_reads fx + 1) f1]
               @ map (enter_event e ''Search'') [clock_reads fx + 2 ..< clock_reads fx + 2 + k]
               @ [leave_event e ''Search'' (clock_reads fx + 2 + k) (SearchFields rs),
                  enter_event e ''Respond'' (clock_reads fx + 3 + k),
                  leave_event e ''Respond'' (clock_reads fx + 4 + k) (RespondFields (inquiry ctx))]
           \<and> answer result \<noteq> None"
proof -
  obtain r1 fx1 where R: "reason e fx ctx = (r1, fx1)" by (cases "reason e fx ctx")
  show ?thesis
  proof (cases r1)
    case (Inl err)
    with assms R show ?thesis by (simp add: pipeline_def)
  next
    case (Inr c1)
    note R1 = R[unfolded Inr]
    obtain r2 fx2 where S: "search e fx1 c1 3 = (r2, fx2)" by (cases "search e fx1 c1 3")
    show ?thesis
    proof (cases r2)
      case (Inl err)
      with assms R1 S show ?thesis by (simp add: pipeline_def)
    next
      case (Inr c2)
      note S1 = S[unfolded Inr]
      from assms R1 S1 have P: "respond e fx2 c2 = (Inr result, fx')" by (simp add: pipeline_def)
      from reason_events[OF R1] obtain f1 where
        r: "stages fx1 = stages fx @ [enter_event e ''Reason'' (clock_reads fx),
                                      leave_event e ''Reason'' (Suc (clock_reads fx)) f1]"
           "clock_reads fx1 = clock_reads fx + 2" "search_replies fx1 = search_replies fx"
           "inquiry c1 = inquiry ctx" by blast
      from search_events[OF S1] obtain k rs where
        s: "1 \<le> k" "k \<le> max 3 1" "length (search_replies fx1) = length (search_replies fx2) + k"
           "stages fx2 = stages fx1 @ map (enter_event e ''Search'') [clock_reads fx1 ..< clock_reads fx1 + k]
                         @ [leave_event e ''Search'' (clock_reads fx1 + k) (SearchFields rs)]"
           "clock_reads fx2 = clock_reads fx1 + k + 1" "c2 = c1\<lparr>references := Some rs\<rparr>" by blast
      note p = respond_events[OF P]
      show ?thesis
        apply (rule exI[of _ k], rule exI[of _ f1], rule exI[of _ rs])
        using r s p by (simp add: eval_nat_numeral del: upt_Suc)
    qed
  qed
qed

lemma upt_6: "[0..<6] = [0, 1, 2, 3, 4, 5::nat]"
  by (simp add: upt_rec)

text \<open>
  C3, amended: in a run of the pipeline that completes and in which \<open>search\<close> sends one
  request, the events recorded (from an empty \<open>stages\<close>, as every front-end starts a run)
  are six, an \<open>enter\<close> and then a \<open>leave\<close> for Reason, Search and Respond in this order,
  and \<open>simplify\<close> returns one entry for each of the three stages, with a duration that is
  not negative when the clock does not run backwards.
\<close>

theorem stage_pairing_single_search:
  assumes run: "pipeline e fx ctx = (Inr result, fx')"
    and once: "length (search_replies fx) = Suc (length (search_replies fx'))"
    and fresh: "stages fx = []"
    and clock: "\<forall>m n. m \<le> n \<longrightarrow> Date_now e m \<le> Date_now e n"
  shows "even (length (stages fx'))
         \<and> map name (stages fx') = [''Reason'', ''Reason'', ''Search'', ''Search'', ''Respond'', ''Respond'']
         \<and> map (\<lambda>ev. info ev = None) (stages fx') = [True, False, True, False, True, False]
         \<and> map name (simplify (stages fx')) = [''Reason'', ''Search'', ''Respond'']
         \<and> (\<forall>s \<in> set (simplify (stages fx')). 0 \<le> duration s)"
proof -
  from pipeline_stages[OF run] obtain k f1 rs where
    k: "1 \<le> k" "length (search_replies fx) = length (search_replies fx') + k"
    and st: "stages fx' = stages fx
               @ [enter_event e ''Reason'' (clock_reads fx),
                  leave_event e ''Reason'' (clock_reads fx + 1) f1]
               @ map (enter_event e ''Search'') [clock_reads fx + 2 ..< clock_reads fx + 2 + k]
               @ [leave_event e ''Search'' (clock_reads fx + 2 + k) (SearchFields rs),
                  enter_event e ''Respond'' (clock_reads fx + 3 + k),
                  leave_event e ''Respond'' (clock_reads fx + 4 + k) (RespondFields (inquiry ctx))]"
    by blast
  from k once have k1: "k = 1" by simp
  let ?n = "clock_reads fx"
  have six: "stages fx' =
      [enter_event e ''Reason'' ?n, leave_event e ''Reason'' (?n + 1) f1,
       enter_event e ''Search'' (?n + 2), leave_event e ''Search'' (?n + 3) (SearchFields rs),
       enter_event e ''Respond'' (?n + 4),
       leave_event e ''Respond'' (?n + 5) (RespondFields (inquiry ctx))]"
    using st fresh k1 by (simp add: eval_nat_numeral)
  have d: "Date_now e ?n \<le> Date_now e (?n + 1)" "Date_now e (?n + 2) \<le> Date_now e (?n + 3)"
    "Date_now e (?n + 4) \<le> Date_now e (?n + 5)"
    using clock by simp_all
  have s6: "filter isOdd [0..<6] = [1, 3, 5]" by (simp add: upt_6 isOdd_def)
  have len: "length (stages fx') = 6" by (simp add: six)
  have sim: "simplify (stages fx') =
      [stage_event.extend (leave_event e ''Reason'' (?n + 1) f1)
         \<lparr>duration = Date_now e (?n + 1) - Date_now e ?n\<rparr>,
       stage_event.extend (leave_event e ''Search'' (?n + 3) (SearchFields rs))
         \<lparr>duration = Date_now e (?n + 3) - Date_now e (?n + 2)\<rparr>,
       stage_event.extend (leave_event e ''Respond'' (?n + 5) (RespondFields (inquiry ctx)))
         \<lparr>duration = Date_now e (?n + 5) - Date_now e (?n + 4)\<rparr>]"
    unfolding simplify_def len s6 by (simp add: six enter_event_def leave_event_def)
  show ?thesis
    unfolding sim using d
    by (simp add: six enter_event_def leave_event_def stage_event.extend_def)
qed

lemma requested_simps:
  "sent (requested e fx kp rest) = sent fx @ [SearchRequest (clean_query kp)]"
  "search_replies (requested e fx kp rest) = rest"
  "stages (requested e fx kp rest) = stages fx @ [enter_event e ''Search'' (clock_reads fx)]"
  "clock_reads (requested e fx kp rest) = Suc (clock_reads fx)"
  "llm_replies (requested e fx kp rest) = llm_replies fx"
  by (simp_all add: requested_def enter_def enter_event_def)

lemma fetch_error_reply:
  assumes "keyphrases ctx = Some kp" "search_replies fx = r # rest" "error_reply e r"
  shows "search_fetch e fx ctx = (NotOk (search_status r), requested e fx kp rest)"
  using assms
  by (auto simp: search_fetch_def error_reply_def requested_def enter_def Let_def)

lemma fetch_empty_reply:
  assumes "keyphrases ctx = Some kp" "search_replies fx = r # rest" "empty_reply e r"
  shows "search_fetch e fx ctx = (NoHits, requested e fx kp rest)"
  using assms
  by (auto simp: search_fetch_def empty_reply_def requested_def enter_def Let_def
           split: option.splits json.splits)

lemma search_retries:
  assumes "keyphrases ctx = Some kp" "search_replies fx = r # rest"
    and "error_reply e r \<or> empty_reply e r" and "attempt > 1"
  shows "search e fx ctx attempt = search e (requested e fx kp rest) ctx (attempt - 1)"
  using assms fetch_error_reply[of ctx kp fx r rest e] fetch_empty_reply[of ctx kp fx r rest e]
  by (subst search.simps) auto

lemma search_last_error:
  assumes "keyphrases ctx = Some kp" "search_replies fx = r # rest" "error_reply e r"
  shows "search e fx ctx 1 = (Inl (SearchFailed (search_status r)), requested e fx kp rest)"
  using fetch_error_reply[OF assms] by (subst search.simps) simp

lemma search_last_empty:
  assumes "keyphrases ctx = Some kp" "search_replies fx = r # rest" "empty_reply e r"
  shows "search e fx ctx 1 = (Inr (ctx\<lparr>references := Some []\<rparr>),
                               leave e (requested e fx kp rest) ''Search'' (SearchFields []))"
  using fetch_empty_reply[OF assms] by (subst search.simps) simp

lemma search_three_errors:
  assumes kp: "keyphrases ctx = Some kp" and w: "search_replies fx = r1 # r2 # r3 # rest"
    and e: "error_reply e r1" "error_reply e r2" "error_reply e r3"
  shows "fst (search e fx ctx 3) = Inl (SearchFailed (search_status r3))"
proof -
  let ?f1 = "requested e fx kp (r2 # r3 # rest)"
  let ?f2 = "requested e ?f1 kp (r3 # rest)"
  have "search e fx ctx 3 = search e ?f1 ctx 2"
    using search_retries[OF kp w, of e 3] e(1) by simp
  also have "\<dots> = search e ?f2 ctx 1"
    using search_retries[OF kp, of ?f1 r2 "r3 # rest" e 2] e(2) by (simp add: requested_simps)
  also have "\<dots> = (Inl (SearchFailed (search_status r3)), requested e ?f2 kp rest)"
    using search_last_error[OF kp, of ?f2 r3 rest e] e(3) by (simp add: requested_simps)
  finally show ?thesis by simp
qed

lemma search_three_empty:
  assumes kp: "keyphrases ctx = Some kp" and w: "search_replies fx = r1 # r2 # r3 # rest"
    and e: "empty_reply e r1" "empty_reply e r2" "empty_reply e r3"
  shows "fst (search e fx ctx 3) = Inr (ctx\<lparr>references := Some []\<rparr>)"
    and "sent (snd (search e fx ctx 3))
           = sent fx @ [SearchRequest (clean_query kp), SearchRequest (clean_query kp),
                        SearchRequest (clean_query kp)]"
    and "search_replies (snd (search e fx ctx 3)) = rest"
proof -
  let ?f1 = "requested e fx kp (r2 # r3 # rest)"
  let ?f2 = "requested e ?f1 kp (r3 # rest)"
  let ?f3 = "requested e ?f2 kp rest"
  have "search e fx ctx 3 = search e ?f1 ctx 2"
    using search_retries[OF kp w, of e 3] e(1) by simp
  also have "\<dots> = search e ?f2 ctx 1"
    using search_retries[OF kp, of ?f1 r2 "r3 # rest" e 2] e(2) by (simp add: requested_simps)
  also have "\<dots> = (Inr (ctx\<lparr>references := Some []\<rparr>), leave e ?f3 ''Search'' (SearchFields []))"
    using search_last_empty[OF kp, of ?f2 r3 rest e] e(3) by (simp add: requested_simps)
  finally have eq: "search e fx ctx 3
      = (Inr (ctx\<lparr>references := Some []\<rparr>), leave e ?f3 ''Search'' (SearchFields []))" .
  show "fst (search e fx ctx 3) = Inr (ctx\<lparr>references := Some []\<rparr>)" by (simp add: eq)
  show "sent (snd (search e fx ctx 3))
           = sent fx @ [SearchRequest (clean_query kp), SearchRequest (clean_query kp),
                        SearchRequest (clean_query kp)]"
    by (simp add: eq leave_def requested_simps)
  show "search_replies (snd (search e fx ctx 3)) = rest"
    by (simp add: eq leave_def requested_simps)
qed

text \<open>
  C6, amended: when \<open>reason\<close> returns with empty keyphrases, \<open>search\<close> sends its requests
  with the empty query like any other; if the three replies are \<open>ok\<close> without hits, the
  references are the empty list, \<open>respond\<close> calls \<open>chat\<close> with an empty list of messages, and
  the run ends as that call does: with its error, or with its answer as the answer.
\<close>

theorem empty_keyphrases_run:
  assumes R: "reason e fx ctx = (Inr c1, fx1)"
    and K: "keyphrases c1 = Some []"
    and W: "search_replies fx1 = r1 # r2 # r3 # rest"
    and E: "empty_reply e r1" "empty_reply e r2" "empty_reply e r3"
  shows "fst (search e fx1 c1 3) = Inr (c1\<lparr>references := Some []\<rparr>)
         \<and> sent (snd (search e fx1 c1 3))
             = sent fx1 @ [SearchRequest [], SearchRequest [], SearchRequest []]
         \<and> respond_messages e (c1\<lparr>references := Some []\<rparr>) = []
         \<and> pipeline e fx ctx = respond e (snd (search e fx1 c1 3)) (c1\<lparr>references := Some []\<rparr>)
         \<and> fst (pipeline e fx ctx)
             = (case fst (chat e (enter e (snd (search e fx1 c1 3)) ''Respond'') [] (stream c1)) of
                  Inl err \<Rightarrow> Inl err
                | Inr ans \<Rightarrow> Inr (c1\<lparr>references := Some [], answer := or_else (answer c1) (Some ans)\<rparr>))"
proof -
  let ?c2 = "c1\<lparr>references := Some []\<rparr>"
  let ?S = "search e fx1 c1 3"
  note s = search_three_empty[OF K W E]
  have q: "clean_query [] = []" by (simp add: clean_query_def)
  have m: "respond_messages e ?c2 = []" by (simp add: respond_messages_def)
  obtain fx2 where S: "?S = (Inr ?c2, fx2)" using s(1) by (cases ?S) simp
  have p: "pipeline e fx ctx = respond e fx2 ?c2" by (simp add: pipeline_def R S)
  have f: "fst (respond e fx2 ?c2)
      = (case fst (chat e (enter e fx2 ''Respond'') [] (stream c1)) of
           Inl err \<Rightarrow> Inl err
         | Inr ans \<Rightarrow> Inr (c1\<lparr>references := Some [], answer := or_else (answer c1) (Some ans)\<rparr>))"
    by (simp add: respond_def m Let_def split: prod.splits sum.splits)
  show ?thesis using s(2) q m p f by (simp add: S)
qed

text \<open>
  C3, as stated: in every run the events have even length and every stage entered is left.
  A stage records \<open>leave\<close> only when it returns: when the chat endpoint answers the first
  request with status 500, the run ends with the single event of entering Reason.
\<close>

theorem aborted_run_unpaired:
  "pipeline sample_env (world [chat_500] [one_hit]) asked
     = (Inl (HTTPError 500),
        \<lparr>llm_replies = [], search_replies = [one_hit], clock_reads = 1,
         stages = [\<lparr>name = ''Reason'', timestamp = 0, info = None\<rparr>], streamed = [],
         sent = [ChatRequest [\<lparr>role = ''system'', content = ''PE''\<rparr>,
                              \<lparr>role = ''user'', content = ''Who?''\<rparr>,
                              \<lparr>role = ''assistant'', content = reason_hint\<rparr>] False]\<rparr>)
   \<and> odd (length (stages (snd (pipeline sample_env (world [chat_500] [one_hit]) asked))))"
  by code_simp

text \<open>A retry of \<open>search\<close> passes through \<open>enter\<close> again (line 328 is inside the function that
  calls itself), so a run with one retry records seven events, and the entries \<open>simplify\<close>
  builds for Search and Respond are made of the wrong pairs: two \<open>enter\<close> events, and the
  \<open>leave\<close> of Search with the \<open>enter\<close> of Respond.\<close>

lemma retried_search_enters_twice:
  "stages (snd (pipeline sample_env (world [reasoned, answered] [no_hits, one_hit]) asked))
     = [\<lparr>name = ''Reason'', timestamp = 0, info = None\<rparr>,
        \<lparr>name = ''Reason'', timestamp = 10,
         info = Some (ReasonFields (Some ''en'') (Some ''x'') None (Some ''ceo.'') None)\<rparr>,
        \<lparr>name = ''Search'', timestamp = 20, info = None\<rparr>,
        \<lparr>name = ''Search'', timestamp = 30, info = None\<rparr>,
        \<lparr>name = ''Search'', timestamp = 40,
         info = Some (SearchFields [\<lparr>position = 1, title = Some ''T'', url = Some ''u'', snippet = []\<rparr>])\<rparr>,
        \<lparr>name = ''Respond'', timestamp = 50, info = None\<rparr>,
        \<lparr>name = ''Respond'', timestamp = 60, info = Some (RespondFields ''Who?'')\<rparr>]"
  by code_simp

lemma retried_search_simplified:
  "map (\<lambda>s. (name s, info s = None, duration s))
     (simplify (stages (snd (pipeline sample_env (world [reasoned, answered] [no_hits, one_hit]) asked))))
     = [(''Reason'', False, 10), (''Search'', True, 10), (''Respond'', True, 10)]"
  unfolding retried_search_enters_twice by code_simp

text \<open>
  C5: \<open>search\<close> retries on a response that is not \<open>ok\<close>. It reads \<open>response.json()\<close> before it
  looks at \<open>response.ok\<close>: on a 502 whose body is an HTML page the first attempt raises the
  SyntaxError of the body and no second request is sent.
\<close>

theorem search_unparsable_error_body:
  "search sample_env (world [] [gateway_error, one_hit]) (asked\<lparr>keyphrases := Some ''ceo.''\<rparr>) 3
     = (Inl SyntaxError,
        \<lparr>llm_replies = [], search_replies = [one_hit], clock_reads = 1,
         stages = [\<lparr>name = ''Search'', timestamp = 0, info = None\<rparr>], streamed = [],
         sent = [SearchRequest ''ceo'']\<rparr>)"
  by code_simp

text \<open>
  C6, as stated: with empty keyphrases the run goes on without error. The search request
  is sent with the empty query, and the run ends with the error of the search service when
  it refuses three times, or with the error of the chat endpoint when it refuses the empty
  list of messages.
\<close>

theorem empty_keyphrases_run_aborts:
  "fst (pipeline sample_env
          (world [reasoned_empty, reasoned_empty, answered] [server_error, server_error, server_error])
          asked) = Inl (SearchFailed 500)
   \<and> fst (pipeline sample_env
          (world [reasoned_empty, reasoned_empty, chat_500] [no_hits, no_hits, no_hits])
          asked) = Inl (HTTPError 500)"
  by code_simp

lemma pipeline_last_event:
  assumes "pipeline e fx ctx = (Inr result, fx')"
  shows "name (last (stages fx')) = ''Respond'' \<and> info (last (stages fx')) = Some (RespondFields (inquiry ctx))
         \<and> answer result \<noteq> None"
proof -
  from pipeline_stages[OF assms] obtain k f1 rs where
    "stages fx' = stages fx
               @ [enter_event e ''Reason'' (clock_reads fx),
                  leave_event e ''Reason'' (clock_reads fx + 1) f1]
               @ map (enter_event e ''Search'') [clock_reads fx + 2 ..< clock_reads fx + 2 + k]
               @ [leave_event e ''Search'' (clock_reads fx + 2 + k) (SearchFields rs),
                  enter_event e ''Respond'' (clock_reads fx + 3 + k),
                  leave_event e ''Respond'' (clock_reads fx + 4 + k) (RespondFields (inquiry ctx))]"
    and "answer result \<noteq> None" by blast
  then show ?thesis by (simp add: leave_event_def)
qed

text \<open>
  C9: in the test runner and at the terminal the history is unchanged when the pipeline
  raises, and otherwise it is unchanged or longer by one entry, which holds the answer that
  \<open>respond\<close> returned and the events up to the \<open>leave\<close> of Respond.
\<close>

theorem history_appended_after_respond:
  "(fst (evaluate_run e fx hist inq) = Inl err \<longrightarrow> fst (snd (evaluate_user e fx hist inq)) = hist)
   \<and> (fst (evaluate_run e fx hist inq) = Inr result \<longrightarrow>
        (\<exists>entry. fst (snd (evaluate_user e fx hist inq)) = hist @ [entry]
                 \<and> answer result = Some (entry_answer entry)
                 \<and> entry_stages entry = stages (snd (evaluate_run e fx hist inq))
                 \<and> name (last (entry_stages entry)) = ''Respond''
                 \<and> info (last (entry_stages entry)) = Some (RespondFields inq)))
   \<and> (map_option (fst \<circ> snd) (interact_ask e fx d hist inq) = Some hist' \<longrightarrow>
        (fst (interact_run e fx hist inq) = Inl err \<longrightarrow> hist' = hist)
        \<and> (hist' = hist
            \<or> (\<exists>entry res. fst (interact_run e fx hist inq) = Inr res
                 \<and> hist' = hist @ [entry]
                 \<and> answer res = Some (entry_answer entry)
                 \<and> entry_stages entry = stages (snd (interact_run e fx hist inq))
                 \<and> name (last (entry_stages entry)) = ''Respond''
                 \<and> info (last (entry_stages entry)) = Some (RespondFields inq))))"
proof (intro conjI impI)
  assume "fst (evaluate_run e fx hist inq) = Inl err"
  then show "fst (snd (evaluate_user e fx hist inq)) = hist"
    by (cases "evaluate_run e fx hist inq") (simp add: evaluate_run_def evaluate_user_def Let_def)
next
  assume a: "fst (evaluate_run e fx hist inq) = Inr result"
  obtain fx1 where run: "evaluate_run e fx hist inq = (Inr result, fx1)"
    using a by (cases "evaluate_run e fx hist inq") simp
  from pipeline_last_event[OF run[unfolded evaluate_run_def]]
  have l: "name (last (stages fx1)) = ''Respond''"
    "info (last (stages fx1)) = Some (RespondFields inq)" "answer result \<noteq> None"
    by (simp_all add: new_context_def)
  show "\<exists>entry. fst (snd (evaluate_user e fx hist inq)) = hist @ [entry]
                 \<and> answer result = Some (entry_answer entry)
                 \<and> entry_stages entry = stages (snd (evaluate_run e fx hist inq))
                 \<and> name (last (entry_stages entry)) = ''Respond''
                 \<and> info (last (entry_stages entry)) = Some (RespondFields inq)"
    using run[unfolded evaluate_run_def] l
    by (auto simp: evaluate_user_def evaluate_run_def Let_def show_opt_def)
next
  assume a: "map_option (fst \<circ> snd) (interact_ask e fx d hist inq) = Some hist'"
    and b: "fst (interact_run e fx hist inq) = Inl err"
  obtain fx1 where run: "interact_run e fx hist inq = (Inl err, fx1)"
    using b by (cases "interact_run e fx hist inq") simp
  show "hist' = hist"
    using a run[unfolded interact_run_def]
    by (auto simp: interact_ask_def Let_def split: option.splits)
next
  assume a: "map_option (fst \<circ> snd) (interact_ask e fx d hist inq) = Some hist'"
  obtain r fx1 where run: "interact_run e fx hist inq = (r, fx1)"
    by (cases "interact_run e fx hist inq")
  show "hist' = hist
            \<or> (\<exists>entry res. fst (interact_run e fx hist inq) = Inr res
                 \<and> hist' = hist @ [entry]
                 \<and> answer res = Some (entry_answer entry)
                 \<and> entry_stages entry = stages (snd (interact_run e fx hist inq))
                 \<and> name (last (entry_stages entry)) = ''Respond''
                 \<and> info (last (entry_stages entry)) = Some (RespondFields inq))"
  proof (cases r)
    case (Inl er)
    with a run[unfolded interact_run_def] show ?thesis
      by (auto simp: interact_ask_def Let_def split: option.splits)
  next
    case (Inr res)
    from pipeline_last_event[OF run[unfolded interact_run_def Inr]]
    have l: "name (last (stages fx1)) = ''Respond''"
      "info (last (stages fx1)) = Some (RespondFields inq)" "answer res \<noteq> None"
      by (simp_all add: new_context_def)
    show ?thesis
      using a run[unfolded interact_run_def] Inr l
      by (auto simp: interact_ask_def interact_run_def Let_def show_opt_def
               split: option.splits if_splits)
  qed
qed

text \<open>Three runs on the sample worlds, evaluated once: a whole run of the pipeline as the
  test runner starts it, \<open>reason\<close> when both completions lack keyphrases, and runs in
  which the first request to the chat endpoint fails.\<close>

lemma sample_run:
  "evaluate_run sample_env (world [reasoned, answered] [one_hit]) [] ''Who?''
     = (Inr \<lparr>inquiry = ''Who?'', history = [], stream = False, language = Some ''en'',
             topic = Some ''x'', thought = None, keyphrases = Some ''ceo.'', observation = None,
             references = Some [\<lparr>position = 1, title = Some ''T'', url = Some ''u'', snippet = []\<rparr>],
             answer = Some ''A[citation:1]''\<rparr>,
        \<lparr>llm_replies = [], search_replies = [], clock_reads = 7,
         stages =
           [\<lparr>name = ''Reason'', timestamp = 10, info = None\<rparr>,
            \<lparr>name = ''Reason'', timestamp = 20,
             info = Some (ReasonFields (Some ''en'') (Some ''x'') None (Some ''ceo.'') None)\<rparr>,
            \<lparr>name = ''Search'', timestamp = 30, info = None\<rparr>,
            \<lparr>name = ''Search'', timestamp = 40,
             info = Some (SearchFields [\<lparr>position = 1, title = Some ''T'', url = Some ''u'', snippet = []\<rparr>])\<rparr>,
            \<lparr>name = ''Respond'', timestamp = 50, info = None\<rparr>,
            \<lparr>name = ''Respond'', timestamp = 60, info = Some (RespondFields ''Who?'')\<rparr>],
         streamed = [],
         sent =
           [ChatRequest [\<lparr>role = ''system'', content = ''PE''\<rparr>, \<lparr>role = ''user'', content = ''Who?''\<rparr>,
                         \<lparr>role = ''assistant'', content = reason_hint\<rparr>] False,
            SearchRequest ''ceo'',
            ChatRequest [\<lparr>role = ''system'', content = ''en[citation:1] T - ''\<rparr>,
                         \<lparr>role = ''user'', content = ''Who?''\<rparr>] False]\<rparr>)"
  by code_simp

lemma sample_reason_empty:
  "reason sample_env (world [reasoned_empty, reasoned_empty, answered] [no_hits, no_hits, no_hits]) asked
     = (Inr \<lparr>inquiry = ''Who?'', history = [], stream = False, language = None,
             topic = Some ''x'', thought = Some ''undefined'', keyphrases = Some [],
             observation = None, references = None, answer = None\<rparr>,
        \<lparr>llm_replies = [answered], search_replies = [no_hits, no_hits, no_hits], clock_reads = 2,
         stages =
           [\<lparr>name = ''Reason'', timestamp = 0, info = None\<rparr>,
            \<lparr>name = ''Reason'', timestamp = 10,
             info = Some (ReasonFields None (Some ''x'') (Some ''undefined'') (Some []) None)\<rparr>],
         streamed = [],
         sent =
           [ChatRequest [\<lparr>role = ''system'', content = ''PE''\<rparr>, \<lparr>role = ''user'', content = ''Who?''\<rparr>,
                         \<lparr>role = ''assistant'', content = reason_hint\<rparr>] False,
            ChatRequest [\<lparr>role = ''system'', content = ''PE''\<rparr>, \<lparr>role = ''user'', content = ''Who?''\<rparr>,
                         \<lparr>role = ''assistant'', content = retry_hint (Some ''undefined'')\<rparr>] False]\<rparr>)"
  by code_simp

lemma sample_failures:
  "fst (evaluate_run sample_env (world [chat_500] []) [] ''Who?'') = Inl (HTTPError 500)"
  "fst (interact_run sample_env (world [chat_500] []) [] ''Who?'') = Inl (HTTPError 500)"
  "map_option (fst \<circ> snd)
     (interact_ask sample_env (world [chat_500] []) \<lparr>buffer = [], refs = []\<rparr> [] ''Who?'') = Some []"
  by code_simp+

theorem stage_pairing_single_search_witness:
  "even (length (stages (snd (evaluate_run sample_env (world [reasoned, answered] [one_hit]) [] ''Who?''))))
   \<and> map name (simplify (stages (snd (evaluate_run sample_env (world [reasoned, answered] [one_hit]) [] ''Who?''))))
     = [''Reason'', ''Search'', ''Respond'']"
proof -
  let ?w = "world [reasoned, answered] [one_hit]"
  let ?fx = "?w\<lparr>clock_reads := Suc (clock_reads ?w), stages := []\<rparr>"
  note run = sample_run[unfolded evaluate_run_def]
  have fresh: "stages ?fx = []" by simp
  have clock: "\<forall>m n. m \<le> n \<longrightarrow> Date_now sample_env m \<le> Date_now sample_env n"
    by (simp add: sample_env_def)
  show ?thesis
    unfolding sample_run
    using stage_pairing_single_search[OF run _ fresh clock] by (simp add: world_def)
qed

theorem empty_keyphrases_run_witness:
  "fst (search sample_env
          (snd (reason sample_env (world [reasoned_empty, reasoned_empty, answered] [no_hits, no_hits, no_hits]) asked))
          (projr (fst (reason sample_env (world [reasoned_empty, reasoned_empty, answered] [no_hits, no_hits, no_hits]) asked)))
          3)
     = Inr \<lparr>inquiry = ''Who?'', history = [], stream = False, language = None,
            topic = Some ''x'', thought = Some ''undefined'', keyphrases = Some [],
            observation = None, references = Some [], answer = None\<rparr>
   \<and> drop 2 (sent (snd (search sample_env
          (snd (reason sample_env (world [reasoned_empty, reasoned_empty, answered] [no_hits, no_hits, no_hits]) asked))
          (projr (fst (reason sample_env (world [reasoned_empty, reasoned_empty, answered] [no_hits, no_hits, no_hits]) asked)))
          3)))
     = [SearchRequest [], SearchRequest [], SearchRequest []]"
proof -
  note R = sample_reason_empty
  have E: "empty_reply sample_env no_hits" by code_simp
  show ?thesis
    unfolding sample_reason_empty
    using empty_keyphrases_run[OF R _ _ E E E] by simp
qed

theorem history_appended_after_respond_witness:
  "fst (snd (evaluate_user sample_env (world [chat_500] []) [] ''Who?'')) = []
   \<and> map entry_answer (fst (snd (evaluate_user sample_env (world [reasoned, answered] [one_hit]) [] ''Who?'')))
       = [''A[citation:1]'']
   \<and> map_option (fst \<circ> snd)
        (interact_ask sample_env (world [chat_500] []) \<lparr>buffer = [], refs = []\<rparr> [] ''Who?'')
       = Some []"
proof -
  let ?bad = "world [chat_500] []"
  let ?ok = "world [reasoned, answered] [one_hit]"
  let ?d = "\<lparr>buffer = [], refs = []\<rparr>"
  let ?res = "\<lparr>inquiry = ''Who?'', history = [], stream = False, language = Some ''en'',
             topic = Some ''x'', thought = None, keyphrases = Some ''ceo.'', observation = None,
             references = Some [\<lparr>position = 1, title = Some ''T'', url = Some ''u'', snippet = []\<rparr>],
             answer = Some ''A[citation:1]''\<rparr>"
  note t1 = history_appended_after_respond[of sample_env ?bad "[]" "''Who?''" "HTTPError 500" ?res ?d "[]"]
  note t2 = history_appended_after_respond[of sample_env ?ok "[]" "''Who?''" "HTTPError 500" ?res ?d "[]"]
  have c1: "fst (snd (evaluate_user sample_env ?bad [] ''Who?'')) = []"
    using t1 sample_failures(1) by simp
  from t2 sample_run obtain entry where
    en: "fst (snd (evaluate_user sample_env ?ok [] ''Who?'')) = [] @ [entry]"
      "answer ?res = Some (entry_answer entry)"
    by auto
  have c2: "map entry_answer (fst (snd (evaluate_user sample_env ?ok [] ''Who?''))) = [''A[citation:1]'']"
    using en by simp
  have c3: "map_option (fst \<circ> snd) (interact_ask sample_env ?bad ?d [] ''Who?'') = Some []"
    using t1 sample_failures(2,3) by simp
  show ?thesis using c1 c2 c3 by simp
qed

section \<open>Properties of the labelled-field codec\<close>

lemma take_eq_prefix: "take (length p) s = p \<longleftrightarrow> prefix p s"
  by (metis append_eq_conv_conj prefix_def take_is_prefix)

lemma lastIndexOf_None: "\<not> sublist p s \<Longrightarrow> lastIndexOf s p = None"
proof (induction s)
  case Nil
  then show ?case by auto
next
  case (Cons c cs)
  then have "\<not> sublist p cs" "\<not> prefix p (c # cs)"
    by (auto simp: sublist_Cons_right)
  with Cons.IH show ?case by (simp add: take_eq_prefix[symmetric])
qed

lemma lastIndexOf_here:
  assumes "prefix p b" "\<not> sublist p (tl b)" "b \<noteq> []"
  shows "lastIndexOf (a @ b) p = Some (length a)"
proof (induction a)
  case Nil
  obtain c cs where b: "b = c # cs" using assms(3) by (cases b) auto
  have "lastIndexOf cs p = None" using assms(2) b by (simp add: lastIndexOf_None)
  with assms(1) b show ?case by (simp add: take_eq_prefix)
next
  case (Cons x a)
  then show ?case by simp
qed

lemma str_indexOf_here: "str_indexOf (p @ s) p = Some 0"
proof (cases "p @ s")
  case Nil
  then show ?thesis by simp
next
  case (Cons c cs)
  have "take (length p) (p @ s) = p" by simp
  then have "take (length p) (c # cs) = p" unfolding Cons .
  then show ?thesis unfolding Cons by simp
qed

lemma prefix_marker:
  "CHR '':'' \<notin> set m \<Longrightarrow> CHR '':'' \<notin> set k \<Longrightarrow> prefix (m @ '':'') (k @ '':'' @ X) \<Longrightarrow> m = k"
proof (induction m arbitrary: k)
  case Nil
  then show ?case by (cases k) auto
next
  case (Cons a m)
  then show ?case by (cases k) auto
qed

lemma occurrence_in_line:
  assumes m: "m \<noteq> []" "CHR '':'' \<notin> set m" "CHR '' '' \<notin> set m" "CHR 0x0A \<notin> set m"
    and k: "CHR '':'' \<notin> set k"
    and v: "\<not> sublist (m @ '':'') v"
    and occ: "sublist (m @ '':'') (k @ '': '' @ v @ NL @ R)"
  shows "suffix m k \<or> sublist (m @ '':'') R"
  using k occ
proof (induction k)
  case Nil
  let ?p = "m @ '':''"
  obtain a ms where ma: "m = a # ms" using m(1) by (cases m) auto
  have a: "a \<noteq> CHR '':''" "a \<noteq> CHR '' ''" "a \<noteq> CHR 0x0A" using m ma by auto
  from Nil.prems(2) have "sublist ?p (CHR '':'' # CHR '' '' # v @ NL @ R)" by simp
  then have "sublist ?p (CHR '' '' # v @ NL @ R)"
    using a ma by (auto simp: sublist_Cons_right)
  then have "sublist ?p (v @ NL @ R)"
    using a ma by (auto simp: sublist_Cons_right)
  then have "sublist ?p v \<or> sublist ?p (NL @ R)
             \<or> (\<exists>p1 p2. ?p = p1 @ p2 \<and> suffix p1 v \<and> prefix p2 (NL @ R))"
    by (simp only: sublist_append)
  then have "sublist ?p (NL @ R)"
  proof (elim disjE exE conjE)
    assume "sublist ?p v"
    with v show ?thesis by simp
  next
    assume "sublist ?p (NL @ R)"
    then show ?thesis .
  next
    fix p1 p2 assume p: "?p = p1 @ p2" "suffix p1 v" "prefix p2 (NL @ R)"
    show ?thesis
    proof (cases "p2 = []")
      case True
      with p have "suffix ?p v" by simp
      then have "sublist ?p v" by (rule suffix_imp_sublist)
      with v show ?thesis by simp
    next
      case False
      with p(3) have "hd p2 = CHR 0x0A" by (cases p2) (auto simp: NL_def)
      then have "CHR 0x0A \<in> set p2" using False by (metis hd_in_set)
      then have "CHR 0x0A \<in> set ?p" unfolding p(1) by simp
      with m(4) show ?thesis by simp
    qed
  qed
  then have "sublist ?p R"
    using a ma by (auto simp: sublist_Cons_right NL_def)
  then show ?case by simp
next
  case (Cons c k)
  from Cons.prems(2) have "prefix (m @ '':'') ((c # k) @ '':'' @ ('' '' @ v @ NL @ R))
                           \<or> sublist (m @ '':'') (k @ '': '' @ v @ NL @ R)"
    by (simp add: sublist_Cons_right)
  then show ?case
  proof
    assume "prefix (m @ '':'') ((c # k) @ '':'' @ ('' '' @ v @ NL @ R))"
    then have "m = c # k" using prefix_marker[OF m(2) Cons.prems(1)] by blast
    then show ?thesis by simp
  next
    assume "sublist (m @ '':'') (k @ '': '' @ v @ NL @ R)"
    with Cons.IH Cons.prems(1) have "suffix m k \<or> sublist (m @ '':'') R" by simp
    then show ?thesis by (auto intro: suffix_ConsI)
  qed
qed

lemma markers_chars:
  "\<forall>m \<in> set PREDEFINED_KEYS.
     m \<noteq> [] \<and> CHR '':'' \<notin> set m \<and> CHR '' '' \<notin> set m \<and> CHR 0x0A \<notin> set m \<and> toUpperCase m = m"
  by code_simp

lemma marker_chars:
  "m \<in> set PREDEFINED_KEYS \<Longrightarrow>
     m \<noteq> [] \<and> CHR '':'' \<notin> set m \<and> CHR '' '' \<notin> set m \<and> CHR 0x0A \<notin> set m \<and> toUpperCase m = m"
  using markers_chars by blast

lemma markers_suffix_free:
  "\<forall>m \<in> set PREDEFINED_KEYS. \<forall>k \<in> set PREDEFINED_KEYS. suffix m k \<longrightarrow> m = k"
  by code_simp

lemma marker_suffix_free:
  "m \<in> set PREDEFINED_KEYS \<Longrightarrow> k \<in> set PREDEFINED_KEYS \<Longrightarrow> suffix m k \<Longrightarrow> m = k"
  using markers_suffix_free by blast

lemma lower_keys:
  "map toLowerCase PREDEFINED_KEYS
     = [''inquiry'', ''tool'', ''language'', ''thought'', ''keyphrases'', ''observation'', ''topic'']"
  by code_simp

lemma marker_lower_inj:
  assumes "m \<in> set PREDEFINED_KEYS" "k \<in> set PREDEFINED_KEYS" "toLowerCase m = toLowerCase k"
  shows "m = k"
proof -
  have "distinct (map toLowerCase PREDEFINED_KEYS)" unfolding lower_keys by simp
  then have "inj_on toLowerCase (set PREDEFINED_KEYS)" by (simp add: distinct_map)
  then show ?thesis using assms by (auto dest: inj_onD)
qed

lemma no_occurrence_own_tail:
  assumes "m \<in> set PREDEFINED_KEYS" "\<not> sublist (m @ '':'') v"
    and that: "rest = [] \<or> rest = NL"
  shows "\<not> sublist (m @ '':'') (tl (m @ '': '' @ v @ rest))"
proof
  note mc = marker_chars[OF assms(1)]
  assume "sublist (m @ '':'') (tl (m @ '': '' @ v @ rest))"
  then have "sublist (m @ '':'') (tl m @ '': '' @ v @ rest)" using mc by simp
  then have "sublist (m @ '':'') ((tl m @ '': '' @ v @ rest) @ (if rest = [] then NL else []))"
    by (metis sublist_append)
  then have "sublist (m @ '':'') (tl m @ '': '' @ v @ NL @ [])"
    using that by (auto simp: NL_def)
  moreover have "CHR '':'' \<notin> set (tl m)" using mc by (metis list.set_sel(2))
  ultimately have "suffix m (tl m) \<or> sublist (m @ '':'') []"
    using occurrence_in_line[of m "tl m" v "[]"] mc assms(2) by blast
  moreover have "\<not> suffix m (tl m)"
  proof
    assume "suffix m (tl m)"
    then have "length m \<le> length (tl m)" by (rule suffix_length_le)
    then show False using mc by (cases m) auto
  qed
  ultimately show False by simp
qed

lemma no_occurrence:
  assumes "m \<in> set PREDEFINED_KEYS" "set ks \<subseteq> set PREDEFINED_KEYS" "m \<notin> set ks"
    and "\<forall>k \<in> set ks. clean_value (the (kv (toLowerCase k)))"
  shows "\<not> sublist (m @ '':'') (field_lines kv ks)"
  using assms(2-)
proof (induction ks)
  case Nil
  then show ?case by (simp add: field_lines_def)
next
  case (Cons k ks)
  note mc = marker_chars[OF assms(1)]
  have kc: "CHR '':'' \<notin> set k" using marker_chars[of k] Cons.prems(1) by simp
  have v: "\<not> sublist (m @ '':'') (the (kv (toLowerCase k)))"
    using Cons.prems(3) assms(1) by (simp add: clean_value_def)
  have nk: "\<not> suffix m k"
    using marker_suffix_free[OF assms(1), of k] Cons.prems(1,2) by auto
  have ih: "\<not> sublist (m @ '':'') (field_lines kv ks)" using Cons by simp
  show ?case
  proof
    assume "sublist (m @ '':'') (field_lines kv (k # ks))"
    then have "sublist (m @ '':'') (k @ '': '' @ the (kv (toLowerCase k)) @ NL @ field_lines kv ks)"
      by (simp add: field_lines_def)
    from occurrence_in_line[OF _ _ _ _ kc v this] mc nk ih show False by blast
  qed
qed

lemma split_nl_single: "CHR 0x0A \<notin> set v \<Longrightarrow> split_nl v = [v]"
  by (induction v) auto

lemma trim_clean:
  assumes "clean_value v" "rest = [] \<or> rest = NL"
  shows "trim ('' '' @ v @ rest) = v"
proof -
  obtain a w where v: "v = a # w" using assms(1) by (cases v) (auto simp: clean_value_def)
  have h: "\<not> is_space a" using assms(1) v by (simp add: clean_value_def)
  have l: "\<not> is_space (last v)" "v \<noteq> []" using assms(1) by (simp_all add: clean_value_def)
  have sp: "is_space (CHR '' '')" "is_space (CHR 0x0A)" by (simp_all add: is_space_def)
  have "trimLeft ('' '' @ v @ rest) = v @ rest" using h sp v by (simp add: trimLeft_def)
  moreover have "trimRight (v @ rest) = v"
  proof -
    obtain u z where u: "v = u @ [z]" using l(2) by (cases v rule: rev_cases) auto
    then have "\<not> is_space z" using l(1) by simp
    then show ?thesis using assms(2) sp u by (auto simp: trimRight_def NL_def)
  qed
  ultimately show ?thesis by (simp add: trim_def)
qed

lemma value_of_line:
  assumes "clean_value v"
  shows "hd (split_nl (trim ('' '' @ v @ NL))) = v"
  using assms trim_clean[OF assms, of NL] by (simp add: split_nl_single clean_value_def)

lemma deconstruct_loop_lines:
  assumes "distinct keys" "set keys \<subseteq> set PREDEFINED_KEYS"
    and "\<forall>k \<in> set keys. present kv k \<longrightarrow> clean_value (the (kv (toLowerCase k)))"
  shows "deconstruct_loop (field_lines kv (rev (filter (present kv) keys))) keys parts
           = restored kv parts (filter (present kv) keys)"
  using assms
proof (induction keys arbitrary: parts)
  case Nil
  then show ?case by (simp add: restored_def)
next
  case (Cons m keys)
  let ?rs = "filter (present kv) keys"
  let ?F = "field_lines kv (rev ?rs)"
  have mk: "m \<in> set PREDEFINED_KEYS" using Cons.prems(2) by simp
  have ih: "\<And>parts. deconstruct_loop ?F keys parts = restored kv parts ?rs"
    using Cons by simp
  show ?case
  proof (cases "present kv m")
    case True
    let ?v = "the (kv (toLowerCase m))"
    have cv: "clean_value ?v" using Cons.prems(3) True by simp
    have nv: "\<not> sublist (m @ '':'') ?v" using cv mk by (simp add: clean_value_def)
    have tx: "field_lines kv (rev (filter (present kv) (m # keys))) = ?F @ (m @ '': '' @ ?v @ NL)"
      using True by (simp add: field_lines_def)
    have pos: "lastIndexOf (?F @ (m @ '': '' @ ?v @ NL)) (m @ '':'') = Some (length ?F)"
      using no_occurrence_own_tail[OF mk nv, of NL] marker_chars[OF mk]
      by (intro lastIndexOf_here) auto
    have vl: "hd (split_nl (trim (drop (length ?F + length m + 1) (?F @ (m @ '': '' @ ?v @ NL))))) = ?v"
      using value_of_line[OF cv] by simp
    show ?thesis
      unfolding tx using True pos vl ih by (simp add: restored_def)
  next
    case False
    have "m \<notin> set (rev ?rs)" using Cons.prems(1) by simp
    moreover have "set (rev ?rs) \<subseteq> set PREDEFINED_KEYS" using Cons.prems(2) by auto
    moreover have "\<forall>k \<in> set (rev ?rs). clean_value (the (kv (toLowerCase k)))"
      using Cons.prems(3) by simp
    ultimately have "\<not> sublist (m @ '':'') ?F" by (intro no_occurrence[OF mk])
    then have "lastIndexOf ?F (m @ '':'') = None" by (rule lastIndexOf_None)
    then show ?thesis using False ih by simp
  qed
qed

lemma restored_hit:
  "m \<in> set rs \<Longrightarrow> restored kv parts rs (toLowerCase m) = Some (the (kv (toLowerCase m)))"
  unfolding restored_def
  by (induction rs arbitrary: parts rule: rev_induct) auto

lemma restored_miss:
  "\<forall>m \<in> set rs. toLowerCase m \<noteq> x \<Longrightarrow> restored kv parts rs x = parts x"
  unfolding restored_def
  by (induction rs arbitrary: parts rule: rev_induct) auto

lemma keys_split: "PREDEFINED_KEYS = leading_keys @ [''TOPIC'']"
  by (simp add: PREDEFINED_KEYS_def leading_keys_def)

lemma keys_distinct: "distinct PREDEFINED_KEYS"
  by (simp add: PREDEFINED_KEYS_def)

lemma join_snoc: "join sep (xs @ [y]) = concat (map (\<lambda>x. x @ sep) xs) @ y"
proof (induction xs)
  case Nil
  then show ?case by simp
next
  case (Cons x xs)
  then show ?case by (cases "xs @ [y]") auto
qed

lemma present_value:
  assumes "m \<in> set PREDEFINED_KEYS" "present kv m"
  shows "(case kv (toLowerCase m) of
            Some v \<Rightarrow> if length v > 0 then toUpperCase m @ '': '' @ v else []
          | None \<Rightarrow> []) = m @ '': '' @ the (kv (toLowerCase m))"
  using assms marker_chars[OF assms(1)]
  by (auto simp: present_def truthy_def split: option.splits)

lemma construct_text:
  assumes "present kv ''TOPIC''"
  shows "construct kv = field_lines kv (filter (present kv) leading_keys)
                          @ (''TOPIC'' @ '': '' @ the (kv ''topic''))"
proof -
  let ?line = "\<lambda>key. case kv (toLowerCase key) of
                        Some v \<Rightarrow> if length v > 0 then toUpperCase key @ '': '' @ v else []
                      | None \<Rightarrow> []"
  have lt: "toLowerCase ''TOPIC'' = ''topic''" by code_simp
  have tk: "''TOPIC'' \<in> set PREDEFINED_KEYS" by (simp add: keys_split)
  have f: "filter (\<lambda>key. truthy (kv (toLowerCase key))) PREDEFINED_KEYS
             = filter (present kv) leading_keys @ [''TOPIC'']"
    using assms by (simp add: keys_split present_def[abs_def])
  have m: "map ?line (filter (present kv) leading_keys)
             = map (\<lambda>k. k @ '': '' @ the (kv (toLowerCase k))) (filter (present kv) leading_keys)"
  proof (rule map_cong[OF refl])
    fix x assume "x \<in> set (filter (present kv) leading_keys)"
    then have "x \<in> set PREDEFINED_KEYS" "present kv x" by (auto simp: keys_split)
    then show "?line x = x @ '': '' @ the (kv (toLowerCase x))" by (rule present_value)
  qed
  have t: "?line ''TOPIC'' = ''TOPIC'' @ '': '' @ the (kv ''topic'')"
    using present_value[OF tk assms] lt by simp
  show ?thesis
    unfolding construct_def f
    by (simp only: map_append list.map join_snoc m t field_lines_def map_map o_def append_assoc)
qed

text \<open>
  C1, amended: for every mapping that has \<open>topic\<close> and whose values under the marker keys
  are clean (not empty, no white space at either end, one line, no marker followed by a
  colon inside), \<open>deconstruct (construct kv)\<close> agrees with \<open>kv\<close> on every marker key.
\<close>

theorem codec_roundtrip:
  assumes topic: "kv ''topic'' \<noteq> None"
    and clean: "\<forall>m \<in> set PREDEFINED_KEYS. \<forall>v. kv (toLowerCase m) = Some v \<longrightarrow> clean_value v"
  shows "\<forall>m \<in> set PREDEFINED_KEYS. deconstruct (construct kv) (toLowerCase m) = kv (toLowerCase m)"
proof
  fix m assume mk: "m \<in> set PREDEFINED_KEYS"
  let ?T = "''TOPIC''"
  let ?vt = "the (kv ''topic'')"
  let ?rs = "filter (present kv) (rev leading_keys)"
  let ?F = "field_lines kv (filter (present kv) leading_keys)"
  have lt: "toLowerCase ?T = ''topic''" by code_simp
  have tk: "?T \<in> set PREDEFINED_KEYS" by (simp add: keys_split)
  have cl: "clean_value (the (kv (toLowerCase k)))" if "k \<in> set PREDEFINED_KEYS" "present kv k" for k
    using that clean by (auto simp: present_def truthy_def split: option.splits)
  have pr: "present kv k \<longleftrightarrow> kv (toLowerCase k) \<noteq> None" if "k \<in> set PREDEFINED_KEYS" for k
    using that clean by (auto simp: present_def truthy_def clean_value_def split: option.splits)
  have pt: "present kv ?T" using topic pr[OF tk] lt by simp
  have cvt: "clean_value ?vt" using cl[OF tk pt] lt by simp
  have nvt: "\<not> sublist (?T @ '':'') ?vt" using cvt tk unfolding clean_value_def by blast
  have lk: "set leading_keys \<subseteq> set PREDEFINED_KEYS" "distinct leading_keys" "?T \<notin> set leading_keys"
    using keys_distinct by (auto simp: keys_split)
  have tx: "construct kv = ?F @ (?T @ '': '' @ ?vt)" by (rule construct_text[OF pt])
  have start: "lastIndexOf (?F @ (?T @ '': '' @ ?vt)) (?T @ '':'') = Some (length ?F)"
    using no_occurrence_own_tail[OF tk nvt, of "[]"] by (intro lastIndexOf_here) auto
  have anchor: "trim (str_replace (?T @ '': '' @ ?vt) (?T @ '':'') []) = ?vt"
  proof -
    have "str_indexOf ((?T @ '':'') @ ('' '' @ ?vt)) (?T @ '':'') = Some 0" by (rule str_indexOf_here)
    then have "str_replace (?T @ '': '' @ ?vt) (?T @ '':'') [] = '' '' @ ?vt @ []"
      by (simp add: str_replace_def)
    then show ?thesis using trim_clean[OF cvt, of "[]"] by simp
  qed
  have notopic: "lastIndexOf ?F (?T @ '':'') = None"
  proof (rule lastIndexOf_None, rule no_occurrence[OF tk])
    show "set (filter (present kv) leading_keys) \<subseteq> set PREDEFINED_KEYS" using lk by auto
    show "?T \<notin> set (filter (present kv) leading_keys)" using lk by simp
    show "\<forall>k \<in> set (filter (present kv) leading_keys). clean_value (the (kv (toLowerCase k)))"
      using cl lk by auto
  qed
  have loop: "deconstruct_loop ?F (rev leading_keys) parts = restored kv parts ?rs" for parts
  proof -
    have "deconstruct_loop (field_lines kv (rev (filter (present kv) (rev leading_keys))))
            (rev leading_keys) parts = restored kv parts ?rs"
      using lk cl by (intro deconstruct_loop_lines) auto
    then show ?thesis by (simp add: rev_filter)
  qed
  have dec: "deconstruct (construct kv) = restored kv [''topic'' \<mapsto> ?vt] ?rs"
    unfolding deconstruct_def deconstruct_with_def tx
    using start anchor notopic loop
    by (simp add: keys_split Let_def lt)
  show "deconstruct (construct kv) (toLowerCase m) = kv (toLowerCase m)"
  proof (cases "m = ?T")
    case True
    have "\<forall>k \<in> set ?rs. toLowerCase k \<noteq> toLowerCase ?T"
      using marker_lower_inj[OF _ tk] lk by auto
    then have "restored kv [''topic'' \<mapsto> ?vt] ?rs (toLowerCase ?T) = [''topic'' \<mapsto> ?vt] (toLowerCase ?T)"
      by (rule restored_miss)
    then show ?thesis using True topic by (simp add: dec lt)
  next
    case False
    then have ml: "m \<in> set leading_keys" using mk by (simp add: keys_split)
    have nt: "toLowerCase m \<noteq> ''topic''" using marker_lower_inj[OF mk tk] False lt by auto
    show ?thesis
    proof (cases "present kv m")
      case True
      then have "m \<in> set ?rs" using ml by simp
      then have "restored kv [''topic'' \<mapsto> ?vt] ?rs (toLowerCase m) = Some (the (kv (toLowerCase m)))"
        by (rule restored_hit)
      then show ?thesis using True pr[OF mk] by (auto simp: dec)
    next
      case False
      have "\<forall>k \<in> set ?rs. toLowerCase k \<noteq> toLowerCase m"
        using marker_lower_inj[OF _ mk] lk False by auto
      then have "restored kv [''topic'' \<mapsto> ?vt] ?rs (toLowerCase m) = [''topic'' \<mapsto> ?vt] (toLowerCase m)"
        by (rule restored_miss)
      then show ?thesis using False pr[OF mk] nt by (simp add: dec)
    qed
  qed
qed

text \<open>
  C1, as stated: every mapping over the six keys with non-empty values is restored. The
  parser is anchored on \<open>TOPIC:\<close>: for a mapping without \<open>topic\<close> the text has no anchor and
  \<open>deconstruct\<close> returns the empty mapping.
\<close>

theorem roundtrip_without_topic:
  "construct [''tool'' \<mapsto> ''Google.''] = ''TOOL: Google.''
   \<and> deconstruct (construct [''tool'' \<mapsto> ''Google.'']) ''tool'' = None"
  by code_simp

theorem codec_roundtrip_witness:
  "map (deconstruct (construct sample_fields))
     [''inquiry'', ''tool'', ''language'', ''thought'', ''keyphrases'', ''observation'', ''topic'']
   = [None, Some ''Google.'', None, Some ''think about it'', None, None, Some ''geo'']"
proof -
  have topic: "sample_fields ''topic'' \<noteq> None" by (simp add: sample_fields_def)
  have c: "clean_value ''Google.''" "clean_value ''think about it''" "clean_value ''geo''"
    by code_simp+
  have "\<forall>x \<in> set (map toLowerCase PREDEFINED_KEYS). \<forall>v. sample_fields x = Some v \<longrightarrow> clean_value v"
    unfolding lower_keys using c by (simp add: sample_fields_def)
  then have clean: "\<forall>m \<in> set PREDEFINED_KEYS. \<forall>v. sample_fields (toLowerCase m) = Some v \<longrightarrow> clean_value v"
    by simp
  from codec_roundtrip[OF topic clean]
  have "\<forall>x \<in> set (map toLowerCase PREDEFINED_KEYS).
          deconstruct (construct sample_fields) x = sample_fields x" by simp
  then show ?thesis unfolding lower_keys by (simp add: sample_fields_def)
qed

end
